theory Spec2Isabelle
  imports
    Main
    "HOL-Library.Sublist"
    "HOL-Library.Product_Lexorder"
    "HOL-Library.Multiset"
begin

section \<open>Python values used by github\_repo\_finder.py\<close>

text \<open>
  Strings are \<^typ>\<open>string\<close>, with one \<^typ>\<open>char\<close> for each character of the Python string
  where the text is ASCII, which it is taken to be wherever the program counts or cuts
  characters; a description or a topic may hold any text, as its UTF-8 bytes, on which
  Python's substring test and \<open>sublist\<close> agree for an ASCII keyword. Python's unbounded
  integers are \<^typ>\<open>int\<close>. An exception is a value of type \<open>error\<close>: \<open>ProviderError\<close> stands for
  whatever the API client raises on a request, \<open>TypeError\<close> and \<open>IndexError\<close> are the
  interpreter's own.
\<close>

datatype error = ProviderError | TypeError | IndexError

text \<open>\<^verbatim>\<open>str(n)\<close> for an integer, as an f-string prints it.\<close>

definition digit_char :: "nat \<Rightarrow> char" where
  "digit_char d = char_of (48 + d)"

fun str_nat :: "nat \<Rightarrow> string" where
  "str_nat n = (if n < 10 then [digit_char n] else str_nat (n div 10) @ [digit_char (n mod 10)])"

declare str_nat.simps [simp del]

definition str_int :: "int \<Rightarrow> string" where
  "str_int i = (if i < 0 then CHR ''-'' # str_nat (nat (- i)) else str_nat (nat i))"

text \<open>
  \<^verbatim>\<open>s.lower()\<close> works with the case tables of Unicode, which are no part of the source:
  every function that calls it, or calls a function that does, takes it as its first
  argument \<open>lower\<close>.
\<close>

text \<open>\<^verbatim>\<open>sep.join(xs)\<close>.\<close>

fun join :: "string \<Rightarrow> string list \<Rightarrow> string" where
  "join sep [] = []"
| "join sep [x] = x"
| "join sep (x # y # ys) = x @ sep @ join sep (y # ys)"

text \<open>\<^verbatim>\<open>xs[:m]\<close>: a negative bound counts from the end of the list.\<close>

definition slice_to :: "'a list \<Rightarrow> int \<Rightarrow> 'a list" where
  "slice_to xs m = (if m < 0 then take (length xs - nat (- m)) xs else take (nat m) xs)"

text \<open>
  \<^verbatim>\<open>xs.sort(key=k, reverse=True)\<close>. The interpreter reverses the list, sorts it with its
  stable ascending sort and reverses the result, which is how elements with equal keys keep
  their order under \<open>reverse=True\<close>.
\<close>

definition sort_reverse :: "('a \<Rightarrow> 'k::linorder) \<Rightarrow> 'a list \<Rightarrow> 'a list" where
  "sort_reverse k xs = rev (sort_key k (rev xs))"


section \<open>The query builders\<close>

text \<open>
  The first lines of \<open>search_repos\<close>. A filter is added when its argument is truthy:
  \<open>None\<close>, the empty string, \<open>0\<close> and the empty list add nothing.
\<close>

definition search_query ::
  "string \<Rightarrow> string option \<Rightarrow> string list option \<Rightarrow> int option \<Rightarrow> int option \<Rightarrow> string" where
  "search_query query language_arg topics_arg stars_arg forks_arg =
     (let q1 = (case language_arg of
                  None \<Rightarrow> query
                | Some l \<Rightarrow> if l = [] then query else query @ '' language:'' @ l);
          q2 = (case stars_arg of
                  None \<Rightarrow> q1
                | Some s \<Rightarrow> if s = 0 then q1 else q1 @ '' stars:>'' @ str_int s);
          q3 = (case forks_arg of
                  None \<Rightarrow> q2
                | Some f \<Rightarrow> if f = 0 then q2 else q2 @ '' forks:>'' @ str_int f)
      in case topics_arg of
           None \<Rightarrow> q3
         | Some ts \<Rightarrow> foldl (\<lambda>q topic. q @ '' topic:'' @ topic) q3 ts)"

text \<open>The first part of \<open>search_java_version_repos\<close>: the base clause and the queries.\<close>

definition base_query :: "string \<Rightarrow> int option \<Rightarrow> string" where
  "base_query build_tool stars_arg =
     (let b1 = (case stars_arg of
                  None \<Rightarrow> ''language:Java''
                | Some s \<Rightarrow> if s = 0 then ''language:Java''
                            else ''language:Java'' @ '' stars:>'' @ str_int s)
      in if build_tool = [] then b1
         else if build_tool = ''maven'' then b1 @ '' pom.xml''
         else if build_tool = ''gradle'' then b1 @ '' build.gradle''
         else if build_tool = ''ant'' then b1 @ '' build.xml''
         else b1)"

definition version_queries :: "string \<Rightarrow> string \<Rightarrow> int option \<Rightarrow> string list" where
  "version_queries java_version build_tool stars_arg =
     (let base = base_query build_tool stars_arg
      in if java_version = ''8'' then
           [base @ '' (java 8 OR java8 OR jdk8 OR \"1.8\")'',
            base @ '' (lambda OR stream)'',
            base @ '' maven.compiler.source'',
            base @ '' sourceCompatibility'']
         else if java_version = ''11'' then
           [base @ '' (java 11 OR java11 OR jdk11)'',
            base @ '' maven.compiler.source 11'',
            base @ '' sourceCompatibility 11'']
         else if java_version = ''17'' then
           [base @ '' (java 17 OR java17 OR jdk17)'',
            base @ '' maven.compiler.source 17'',
            base @ '' sourceCompatibility 17'']
         else if java_version = ''21'' then
           [base @ '' (java 21 OR java21 OR jdk21)'',
            base @ '' maven.compiler.source 21'',
            base @ '' sourceCompatibility 21'']
         else [])"

text \<open>
  The number of \<open>OR\<close> operators of a query string (the occurrences of \<open>OR\<close> between two
  spaces), and the number of alternatives they join.
\<close>

fun count_or :: "string \<Rightarrow> nat" where
  "count_or [] = 0"
| "count_or (c # cs) = (if prefix '' OR '' (c # cs) then 1 else 0) + count_or cs"

definition or_alternatives :: "string \<Rightarrow> nat" where
  "or_alternatives q = Suc (count_or q)"


section \<open>The provider's objects\<close>

text \<open>
  A repository object of the API client, as a search hit or as the answer of \<open>get_repo\<close>.
  Plain attributes are data. A method or attribute that sends a request can raise, so its
  answer is a sum with the exception on the left; a request is taken to answer the same way
  each time it is repeated for one object. \<open>repo_age_years\<close> is the value of
  \<^verbatim>\<open>round((datetime.now() - repo.created_at).days / 365.25, 1)\<close> in tenths of a year: the
  clock and the float arithmetic are outside the model, and the dates are the strings that
  \<open>strftime\<close> prints. \<open>repo_last_commit\<close> is the answer of the whole block that reads the
  head commit of the default branch: its date, its author and its message.
\<close>

record repo =
  repo_full_name :: string
  repo_description :: "string option"
  repo_stargazers_count :: int
  repo_forks_count :: int
  repo_language :: "string option"
  repo_get_topics :: "error + string list"
  repo_html_url :: string
  repo_created_at :: string
  repo_age_years :: int
  repo_updated_at :: string
  repo_size :: int
  repo_open_issues_count :: int
  repo_default_branch :: string
  repo_get_contributors :: "error + int"
  repo_get_commits :: "error + int"
  repo_license :: "error + string option"
  repo_last_commit :: "error + string \<times> string \<times> string"
  repo_get_contents :: "string \<Rightarrow> error + (error + string)"

text \<open>
  The result stream of \<open>search_repositories\<close>: the hits in the order the provider returns
  them. An \<open>Inl\<close> item is the point where the call, \<open>totalCount\<close> or the fetch of the next
  page raises.
\<close>

type_synonym search_results = "(error + repo) list"

text \<open>The dictionary built for each hit, and the one of the Java-version search.\<close>

record repo_info =
  name :: string
  description :: string
  stars :: int
  forks :: int
  language :: string
  topics :: string
  url :: string
  created_at :: string
  age_years :: int
  contributors :: int
  commits :: int
  last_updated :: string
  size_kb :: int
  open_issues :: int
  license :: string
  last_commit_date :: string
  last_commit_author :: string
  last_commit_message :: string
  default_branch :: string

record java_repo_info = repo_info +
  java_version :: string
  version_score :: int


section \<open>Enrichment of one hit\<close>

definition first_line :: "string \<Rightarrow> string" where
  "first_line s = takeWhile (\<lambda>c. c \<noteq> CHR 0x0A) s"

definition contributors_count :: "repo \<Rightarrow> int" where
  "contributors_count repo = (case repo_get_contributors repo of Inl e \<Rightarrow> 0 | Inr n \<Rightarrow> n)"

definition commits_count :: "repo \<Rightarrow> int" where
  "commits_count repo = (case repo_get_commits repo of Inl e \<Rightarrow> 0 | Inr n \<Rightarrow> n)"

definition license_name :: "repo \<Rightarrow> string" where
  "license_name repo =
     (case repo_license repo of
        Inl e \<Rightarrow> ''No license''
      | Inr None \<Rightarrow> ''No license''
      | Inr (Some l) \<Rightarrow> l)"

definition last_commit_info :: "repo \<Rightarrow> string \<times> string \<times> string" where
  "last_commit_info repo =
     (case repo_last_commit repo of
        Inl e \<Rightarrow> (''Unknown'', ''Unknown'', ''Unable to fetch commit info'')
      | Inr (d, a, m) \<Rightarrow> (d, a, take 100 (first_line m)))"

definition or_default :: "string option \<Rightarrow> string \<Rightarrow> string" where
  "or_default x d = (case x of None \<Rightarrow> d | Some s \<Rightarrow> if s = [] then d else s)"

definition topics_text :: "string list \<Rightarrow> string" where
  "topics_text ts = (if ts = [] then ''None'' else join '', '' ts)"

text \<open>
  The body of the loop of \<open>search_repos\<close> for one hit. The four guarded lookups fall back
  to their placeholder; \<open>get_topics\<close> is called outside any \<open>try\<close> of the loop body, so its
  exception leaves the body.
\<close>

definition repo_info_of :: "repo \<Rightarrow> error + repo_info" where
  "repo_info_of repo =
     (case last_commit_info repo of (commit_date, commit_author, commit_message) \<Rightarrow>
      case repo_get_topics repo of
        Inl e \<Rightarrow> Inl e
      | Inr ts \<Rightarrow> Inr
          \<lparr> name = repo_full_name repo,
            description = or_default (repo_description repo) ''No description'',
            stars = repo_stargazers_count repo,
            forks = repo_forks_count repo,
            language = or_default (repo_language repo) ''Unknown'',
            topics = topics_text ts,
            url = repo_html_url repo,
            created_at = repo_created_at repo,
            age_years = repo_age_years repo,
            contributors = contributors_count repo,
            commits = commits_count repo,
            last_updated = repo_updated_at repo,
            size_kb = repo_size repo,
            open_issues = repo_open_issues_count repo,
            license = license_name repo,
            last_commit_date = commit_date,
            last_commit_author = commit_author,
            last_commit_message = commit_message,
            default_branch = repo_default_branch repo \<rparr>)"


section \<open>Version scoring\<close>

definition version_keywords :: "string \<Rightarrow> string list" where
  "version_keywords target_version =
     [''java '' @ target_version, ''java'' @ target_version, ''jdk'' @ target_version]
     @ (if target_version = ''8'' then [''1.8'', ''lambda'', ''stream''] else [])"

definition version_topics :: "string \<Rightarrow> string list" where
  "version_topics target_version =
     [''java'' @ target_version, ''java-'' @ target_version, ''jdk'' @ target_version]"

definition description_score :: "string \<Rightarrow> string \<Rightarrow> int" where
  "description_score description_text target_version =
     foldl (\<lambda>score keyword. if sublist keyword description_text then score + 3 else score)
       0 (version_keywords target_version)"

definition topics_score :: "int \<Rightarrow> string list \<Rightarrow> string \<Rightarrow> int" where
  "topics_score score0 topic_list target_version =
     foldl (\<lambda>score topic. if topic \<in> set topic_list then score + 5 else score)
       score0 (version_topics target_version)"

definition calculate_version_score :: "(string \<Rightarrow> string) \<Rightarrow> repo \<Rightarrow> string \<Rightarrow> error + int" where
  "calculate_version_score lower repo target_version =
     (let description_text = lower (or_default (repo_description repo) []);
          score = description_score description_text target_version
      in case repo_get_topics repo of
           Inl e \<Rightarrow> Inl e
         | Inr ts \<Rightarrow> Inr (topics_score score (map lower ts) target_version))"

text \<open>The body of the loop of \<open>search_java_version_repos\<close> for one hit not seen before.\<close>

definition java_repo_info_of ::
  "(string \<Rightarrow> string) \<Rightarrow> string \<Rightarrow> repo \<Rightarrow> error + java_repo_info" where
  "java_repo_info_of lower version repo =
     (case last_commit_info repo of (commit_date, commit_author, commit_message) \<Rightarrow>
      case calculate_version_score lower repo version of
        Inl e \<Rightarrow> Inl e
      | Inr score \<Rightarrow>
      case repo_get_topics repo of
        Inl e \<Rightarrow> Inl e
      | Inr ts \<Rightarrow> Inr
          \<lparr> name = repo_full_name repo,
            description = or_default (repo_description repo) ''No description'',
            stars = repo_stargazers_count repo,
            forks = repo_forks_count repo,
            language = or_default (repo_language repo) ''Unknown'',
            topics = topics_text ts,
            url = repo_html_url repo,
            created_at = repo_created_at repo,
            age_years = repo_age_years repo,
            contributors = contributors_count repo,
            commits = commits_count repo,
            last_updated = repo_updated_at repo,
            size_kb = repo_size repo,
            open_issues = repo_open_issues_count repo,
            license = license_name repo,
            last_commit_date = commit_date,
            last_commit_author = commit_author,
            last_commit_message = commit_message,
            default_branch = repo_default_branch repo,
            java_version = version,
            version_score = score \<rparr>)"


section \<open>The two searches\<close>

text \<open>
  The loop of \<open>search_repos\<close> over the result stream, from the list \<open>repos\<close> gathered so
  far. An exception (of the stream, or of the body) ends the loop in the handler around it,
  which keeps what was gathered; so does the \<open>break\<close> at the cap.
\<close>

fun search_repos_loop :: "int \<Rightarrow> repo_info list \<Rightarrow> search_results \<Rightarrow> repo_info list" where
  "search_repos_loop max_results repos [] = repos"
| "search_repos_loop max_results repos (Inl e # rest) = repos"
| "search_repos_loop max_results repos (Inr repo # rest) =
     (if max_results \<le> int (length repos) then repos
      else case repo_info_of repo of
             Inl e \<Rightarrow> repos
           | Inr info \<Rightarrow> search_repos_loop max_results (repos @ [info]) rest)"

text \<open>
  \<open>search_repos\<close>, given the provider's \<open>search_repositories\<close>. The result is the list
  returned and the query strings sent to the provider, in order.
\<close>

definition search_repos ::
  "(string \<Rightarrow> search_results) \<Rightarrow> string \<Rightarrow> string option \<Rightarrow> string list option \<Rightarrow>
     int option \<Rightarrow> int option \<Rightarrow> int \<Rightarrow> repo_info list \<times> string list" where
  "search_repos search_repositories query language_arg topics_arg stars_arg forks_arg max_results =
     (let q = search_query query language_arg topics_arg stars_arg forks_arg
      in (search_repos_loop max_results [] (search_repositories q), [q]))"

text \<open>
  The inner loop of \<open>search_java_version_repos\<close> over one query's stream, on the pair of
  \<open>all_repos\<close> and \<open>seen_repos\<close>. The name of a new hit is recorded before the hit is
  enriched. An exception ends this query only: the handler is inside the loop over the
  queries.
\<close>

fun java_version_loop ::
  "(string \<Rightarrow> string) \<Rightarrow> string \<Rightarrow> int \<Rightarrow> java_repo_info list \<times> string set \<Rightarrow>
     search_results \<Rightarrow> java_repo_info list \<times> string set" where
  "java_version_loop lower version max_results (all_repos, seen_repos) [] = (all_repos, seen_repos)"
| "java_version_loop lower version max_results (all_repos, seen_repos) (Inl e # rest) =
     (all_repos, seen_repos)"
| "java_version_loop lower version max_results (all_repos, seen_repos) (Inr repo # rest) =
     (if max_results \<le> int (length all_repos) then (all_repos, seen_repos)
      else if repo_full_name repo \<notin> seen_repos then
        (case java_repo_info_of lower version repo of
           Inl e \<Rightarrow> (all_repos, insert (repo_full_name repo) seen_repos)
         | Inr info \<Rightarrow>
             java_version_loop lower version max_results
               (all_repos @ [info], insert (repo_full_name repo) seen_repos) rest)
      else java_version_loop lower version max_results (all_repos, seen_repos) rest)"

text \<open>
  The loop over the queries: each query is sent, whatever was gathered before. The state
  is \<open>all_repos\<close>, \<open>seen_repos\<close> and the query strings sent so far.
\<close>

definition run_query ::
  "(string \<Rightarrow> string) \<Rightarrow> (string \<Rightarrow> search_results) \<Rightarrow> string \<Rightarrow> int \<Rightarrow>
     (java_repo_info list \<times> string set) \<times> string list \<Rightarrow> string \<Rightarrow>
     (java_repo_info list \<times> string set) \<times> string list" where
  "run_query lower search_repositories version max_results st query =
     (java_version_loop lower version max_results (fst st) (search_repositories query),
      snd st @ [query])"

definition run_queries ::
  "(string \<Rightarrow> string) \<Rightarrow> (string \<Rightarrow> search_results) \<Rightarrow> string \<Rightarrow> int \<Rightarrow> string list \<Rightarrow>
     (java_repo_info list \<times> string set) \<times> string list" where
  "run_queries lower search_repositories version max_results queries =
     foldl (run_query lower search_repositories version max_results) (([], {}), []) queries"

text \<open>\<open>all_repos\<close> when the loop over the queries has ended, before it is sorted.\<close>

definition merged_repos ::
  "(string \<Rightarrow> string) \<Rightarrow> (string \<Rightarrow> search_results) \<Rightarrow> string \<Rightarrow> string \<Rightarrow> int option \<Rightarrow>
     int \<Rightarrow> java_repo_info list" where
  "merged_repos lower search_repositories version build_tool stars_arg max_results =
     fst (fst (run_queries lower search_repositories version max_results
                 (version_queries version build_tool stars_arg)))"

definition sort_key_of :: "java_repo_info \<Rightarrow> int \<times> int" where
  "sort_key_of x = (version_score x, stars x)"

text \<open>
  \<open>search_java_version_repos\<close>: the list returned and the query strings sent to the
  provider, in order.
\<close>

definition search_java_version_repos ::
  "(string \<Rightarrow> string) \<Rightarrow> (string \<Rightarrow> search_results) \<Rightarrow> string \<Rightarrow> string \<Rightarrow> int option \<Rightarrow>
     int \<Rightarrow> java_repo_info list \<times> string list" where
  "search_java_version_repos lower search_repositories version build_tool stars_arg max_results =
     (let st = run_queries lower search_repositories version max_results
                 (version_queries version build_tool stars_arg);
          all_repos = sort_reverse sort_key_of (fst (fst st));
          final_results = slice_to all_repos max_results
      in (final_results, snd st))"


section \<open>Analysis of one repository\<close>

text \<open>\<^verbatim>\<open>s.strip('/')\<close> and \<^verbatim>\<open>s.split('/')\<close>.\<close>

definition strip_char :: "char \<Rightarrow> string \<Rightarrow> string" where
  "strip_char c s = rev (dropWhile (\<lambda>x. x = c) (rev (dropWhile (\<lambda>x. x = c) s)))"

fun split_on :: "char \<Rightarrow> string \<Rightarrow> string list" where
  "split_on c [] = [[]]"
| "split_on c (x # xs) =
     (if x = c then [] # split_on c xs
      else case split_on c xs of
             [] \<Rightarrow> [[x]]
           | w # ws \<Rightarrow> (x # w) # ws)"

definition check_file_exists :: "repo \<Rightarrow> string \<Rightarrow> bool" where
  "check_file_exists repo filename =
     (case repo_get_contents repo filename of Inl e \<Rightarrow> False | Inr c \<Rightarrow> True)"

text \<open>
  \<open>_get_file_content\<close> returns the decoded text of the file, a \<open>str\<close>, or \<open>None\<close> when the
  lookup or the decoding raises. It does not parse the text.
\<close>

definition get_file_content :: "repo \<Rightarrow> string \<Rightarrow> string option" where
  "get_file_content repo filename =
     (case repo_get_contents repo filename of
        Inl e \<Rightarrow> None
      | Inr (Inl e) \<Rightarrow> None
      | Inr (Inr s) \<Rightarrow> Some s)"

text \<open>
  \<^verbatim>\<open>package_json['dependencies']\<close> where \<open>package_json\<close> is a \<open>str\<close>: indexing a string
  with a string raises \<open>TypeError\<close>.
\<close>

definition str_getitem :: "string \<Rightarrow> string \<Rightarrow> error + string" where
  "str_getitem s key = Inl TypeError"

definition frameworks_of :: "repo \<Rightarrow> error + string list" where
  "frameworks_of repo =
     (if check_file_exists repo ''package.json'' then
        (case get_file_content repo ''package.json'' of
           None \<Rightarrow> Inr []
         | Some package_json \<Rightarrow>
             if package_json \<noteq> [] \<and> sublist ''dependencies'' package_json then
               (case str_getitem package_json ''dependencies'' of
                  Inl e \<Rightarrow> Inl e
                | Inr deps \<Rightarrow> if sublist ''@angular/core'' deps then Inr [''angular''] else Inr [])
             else Inr [])
      else Inr [])"

record analysis =
  analysis_name :: string
  analysis_url :: string
  build_tools :: "string list"
  frameworks :: "string list"
  analysis_language :: "string option"
  analysis_topics :: "string list"

text \<open>The \<open>try\<close> block of \<open>analyze_repo\<close>, given the provider's \<open>get_repo\<close>.\<close>

definition analyze_repo_try :: "(string \<Rightarrow> error + repo) \<Rightarrow> string \<Rightarrow> error + analysis" where
  "analyze_repo_try get_repo repo_url =
     (let parts = split_on CHR ''/'' (strip_char CHR ''/'' repo_url)
      in if length parts < 2 then Inl IndexError
         else
           let owner = parts ! (length parts - 2);
               repo_name = parts ! (length parts - 1)
           in case get_repo (owner @ ''/'' @ repo_name) of
                Inl e \<Rightarrow> Inl e
              | Inr repo \<Rightarrow>
                  let tools = (if check_file_exists repo ''pom.xml'' then [''maven''] else [])
                            @ (if check_file_exists repo ''build.xml'' then [''ant''] else [])
                  in case frameworks_of repo of
                       Inl e \<Rightarrow> Inl e
                     | Inr fw \<Rightarrow>
                         (case repo_get_topics repo of
                            Inl e \<Rightarrow> Inl e
                          | Inr ts \<Rightarrow> Inr
                              \<lparr> analysis_name = repo_full_name repo,
                                analysis_url = repo_html_url repo,
                                build_tools = tools,
                                frameworks = fw,
                                analysis_language = repo_language repo,
                                analysis_topics = ts \<rparr>))"

text \<open>
  \<open>analyze_repo\<close>: the handler prints the exception and returns the empty dictionary,
  which is \<open>None\<close> here.
\<close>

definition analyze_repo :: "(string \<Rightarrow> error + repo) \<Rightarrow> string \<Rightarrow> analysis option" where
  "analyze_repo get_repo repo_url =
     (case analyze_repo_try get_repo repo_url of Inl e \<Rightarrow> None | Inr a \<Rightarrow> Some a)"


section \<open>Notions used to state the properties\<close>

text \<open>
  A version number: a nonempty string of digits and dots. The versions for which
  \<open>search_java_version_repos\<close> has queries, 8, 11, 17 and 21, are of this kind.
\<close>

definition version_number :: "string \<Rightarrow> bool" where
  "version_number v = (v \<noteq> [] \<and> list_all (\<lambda>c. c \<in> set ''0123456789.'') v)"

text \<open>
  What the statements need to know of \<open>str.lower()\<close>. A keyword text is made of small
  letters, digits, blanks and dots. \<open>lower_keeps_keywords lower\<close>: when a keyword text \<open>k\<close> is
  appended to a text \<open>d\<close>, the lower-cased whole ends with \<open>k\<close>, and what stands before \<open>k\<close>
  is the lower-cased \<open>d\<close> up to characters outside ASCII. The one case is a capital sigma at
  the end of \<open>d\<close>: \<open>str.lower()\<close> gives it one of two small forms by what follows it, and
  the two are of the same length in UTF-8 and differ in a byte outside ASCII; every other
  character is lower-cased by itself. \<open>lower_ascii\<close> is \<open>str.lower()\<close> on ASCII text.
\<close>

definition keyword_char :: "char \<Rightarrow> bool" where
  "keyword_char c = (c \<in> set ''abcdefghijklmnopqrstuvwxyz0123456789 .'')"

definition ascii_char :: "char \<Rightarrow> bool" where
  "ascii_char c = ((of_char c :: nat) < 128)"

definition same_ascii :: "string \<Rightarrow> string \<Rightarrow> bool" where
  "same_ascii g h = list_all2 (\<lambda>a b. a = b \<or> \<not> ascii_char a \<and> \<not> ascii_char b) g h"

definition lower_keeps_keywords :: "(string \<Rightarrow> string) \<Rightarrow> bool" where
  "lower_keeps_keywords lower =
     (\<forall>d k. list_all keyword_char k \<longrightarrow> (\<exists>g. lower (d @ k) = g @ k \<and> same_ascii g (lower d)))"

definition lower_char :: "char \<Rightarrow> char" where
  "lower_char c =
     (if 65 \<le> (of_char c :: nat) \<and> (of_char c :: nat) \<le> 90 then char_of (of_char c + 32 :: nat) else c)"

definition lower_ascii :: "string \<Rightarrow> string" where
  "lower_ascii s = map lower_char s"

text \<open>
  \<open>boundary_free k' k\<close>: the string \<open>k'\<close> is not inside \<open>k\<close>, and no proper nonempty end of
  \<open>k'\<close> starts \<open>k\<close>. Then appending \<open>k\<close> to a text creates no new occurrence of \<open>k'\<close>.
\<close>

definition boundary_free :: "string \<Rightarrow> string \<Rightarrow> bool" where
  "boundary_free k' k =
     (\<not> sublist k' k \<and> list_all (\<lambda>n. \<not> prefix (drop n k') k) [1..<length k'])"

text \<open>What the loop body of \<open>search_repos\<close> makes of one item of the stream.\<close>

definition hit_info :: "error + repo \<Rightarrow> error + repo_info" where
  "hit_info item = (case item of Inl e \<Rightarrow> Inl e | Inr repo \<Rightarrow> repo_info_of repo)"

text \<open>
  The hits a stream supplies before it raises, and the hits that the streams of a list of
  queries supply, in the order of the queries.
\<close>

definition supplied :: "search_results \<Rightarrow> repo list" where
  "supplied results = map projr (takeWhile (\<lambda>item. \<not> isl item) results)"

definition supplied_hits :: "(string \<Rightarrow> search_results) \<Rightarrow> string list \<Rightarrow> repo list" where
  "supplied_hits search_repositories queries =
     concat (map (\<lambda>q. supplied (search_repositories q)) queries)"

text \<open>
  The items of a stream that \<open>search_repos\<close> can turn into records: those before the first
  item that raises or whose record cannot be built.
\<close>

definition eligible_items :: "search_results \<Rightarrow> search_results" where
  "eligible_items results = takeWhile (\<lambda>item. \<not> isl (hit_info item)) results"

text \<open>
  The hits of one query's stream that \<open>search_java_version_repos\<close> can turn into records,
  whatever the cap, when the names in \<open>seen\<close> have been met before: a hit counts when its
  name is new and its record can be built; the stream ends at the first item that raises and
  at the first new hit whose record cannot be built, whose name has been met from then on.
  The second component is the set of names met when the stream has ended. \<open>eligible_hits\<close>
  are these hits for a list of queries, in the order of the queries.
\<close>

fun eligible_in ::
  "(string \<Rightarrow> string) \<Rightarrow> string \<Rightarrow> string set \<Rightarrow> search_results \<Rightarrow> repo list \<times> string set" where
  "eligible_in lower version seen [] = ([], seen)"
| "eligible_in lower version seen (Inl e # rest) = ([], seen)"
| "eligible_in lower version seen (Inr h # rest) =
     (if repo_full_name h \<in> seen then eligible_in lower version seen rest
      else if isl (java_repo_info_of lower version h) then ([], insert (repo_full_name h) seen)
      else (h # fst (eligible_in lower version (insert (repo_full_name h) seen) rest),
            snd (eligible_in lower version (insert (repo_full_name h) seen) rest)))"

fun eligible_hits ::
  "(string \<Rightarrow> string) \<Rightarrow> (string \<Rightarrow> search_results) \<Rightarrow> string \<Rightarrow> string set \<Rightarrow> string list \<Rightarrow>
     repo list" where
  "eligible_hits lower search_repositories version seen [] = []"
| "eligible_hits lower search_repositories version seen (q # qs) =
     fst (eligible_in lower version seen (search_repositories q))
     @ eligible_hits lower search_repositories version
         (snd (eligible_in lower version seen (search_repositories q))) qs"

text \<open>The hits of a list whose name is not in \<open>seen\<close> and does not occur earlier in the list.\<close>

fun fresh :: "string set \<Rightarrow> repo list \<Rightarrow> repo list" where
  "fresh seen [] = []"
| "fresh seen (h # hs) =
     (if repo_full_name h \<in> seen then fresh seen hs
      else h # fresh (insert (repo_full_name h) seen) hs)"

text \<open>
  The four guarded lookups of the enrichment. \<open>fail_lookup\<close> makes one of them raise for
  a repository; \<open>placeholder\<close> puts the documented placeholder into the fields that the
  lookup fills.
\<close>

datatype lookup = Contributors | Commits | License | Last_commit

fun fail_lookup :: "lookup \<Rightarrow> error \<Rightarrow> repo \<Rightarrow> repo" where
  "fail_lookup Contributors e repo = repo\<lparr>repo_get_contributors := Inl e\<rparr>"
| "fail_lookup Commits e repo = repo\<lparr>repo_get_commits := Inl e\<rparr>"
| "fail_lookup License e repo = repo\<lparr>repo_license := Inl e\<rparr>"
| "fail_lookup Last_commit e repo = repo\<lparr>repo_last_commit := Inl e\<rparr>"

fun placeholder :: "lookup \<Rightarrow> 'a repo_info_scheme \<Rightarrow> 'a repo_info_scheme" where
  "placeholder Contributors info = info\<lparr>contributors := 0\<rparr>"
| "placeholder Commits info = info\<lparr>commits := 0\<rparr>"
| "placeholder License info = info\<lparr>license := ''No license''\<rparr>"
| "placeholder Last_commit info =
     info\<lparr>last_commit_date := ''Unknown'',
          last_commit_author := ''Unknown'',
          last_commit_message := ''Unable to fetch commit info''\<rparr>"

text \<open>
  A stream in which the lookup fails for the hits named in \<open>names\<close>, and a result list in
  which the records named in \<open>names\<close> carry the placeholder.
\<close>

definition failing_for :: "lookup \<Rightarrow> error \<Rightarrow> string set \<Rightarrow> search_results \<Rightarrow> search_results" where
  "failing_for l e names results =
     map (map_sum id (\<lambda>repo. if repo_full_name repo \<in> names then fail_lookup l e repo else repo))
       results"

definition degraded :: "lookup \<Rightarrow> string set \<Rightarrow> 'a repo_info_scheme list \<Rightarrow> 'a repo_info_scheme list" where
  "degraded l names infos = map (\<lambda>info. if name info \<in> names then placeholder l info else info) infos"


section \<open>Example objects\<close>

definition example_repo :: repo where
  "example_repo =
     \<lparr> repo_full_name = ''octo/demo'',
       repo_description = Some ''Uses Java 8'',
       repo_stargazers_count = 120,
       repo_forks_count = 7,
       repo_language = Some ''Java'',
       repo_get_topics = Inr [''Maven''],
       repo_html_url = ''https://host/octo/demo'',
       repo_created_at = ''2020-01-01'',
       repo_age_years = 68,
       repo_updated_at = ''2026-10-01'',
       repo_size = 2048,
       repo_open_issues_count = 3,
       repo_default_branch = ''main'',
       repo_get_contributors = Inr 4,
       repo_get_commits = Inr 250,
       repo_license = Inr (Some ''MIT License''),
       repo_last_commit = Inr (''2026-10-01 12:00'', ''octo'', ''Fix build''),
       repo_get_contents = (\<lambda>filename. Inl ProviderError) \<rparr>"

text \<open>A hit with the given name, description, stars and topics, otherwise like the example.\<close>

definition hit :: "string \<Rightarrow> string \<Rightarrow> int \<Rightarrow> string list \<Rightarrow> repo" where
  "hit full_name_text description_text star_count topic_list =
     example_repo\<lparr> repo_full_name := full_name_text,
                   repo_description := Some description_text,
                   repo_stargazers_count := star_count,
                   repo_get_topics := Inr topic_list \<rparr>"


text \<open>
  A provider that answers every query with the same five hits: the third has the name of
  the first, and the first and the fourth have the same score and the same stars.
\<close>

definition example_search :: "string \<Rightarrow> search_results" where
  "example_search q =
     [Inr (hit ''acme/alpha'' ''Java 8 app'' 10 []),
      Inr (hit ''acme/beta'' ''A tool'' 50 [''java8'']),
      Inr (hit ''acme/alpha'' ''Another description'' 99 []),
      Inr (hit ''acme/gamma'' ''Needs JDK8'' 10 []),
      Inr (hit ''acme/delta'' ''Plain'' 70 [])]"

text \<open>A provider that answers every query with six hits of six names.\<close>

definition six_search :: "string \<Rightarrow> search_results" where
  "six_search q =
     [Inr (hit ''acme/r1'' ''one'' 1 []),
      Inr (hit ''acme/r2'' ''two'' 2 []),
      Inr (hit ''acme/r3'' ''three'' 3 []),
      Inr (hit ''acme/r4'' ''four'' 4 []),
      Inr (hit ''acme/r5'' ''five'' 5 []),
      Inr (hit ''acme/r6'' ''six'' 6 [])]"


text \<open>
  A hit of the given name whose topics cannot be fetched, and a provider that answers every
  query with three such hits followed by the six hits of \<open>six_search\<close>.
\<close>

definition failing_hit :: "string \<Rightarrow> repo" where
  "failing_hit full_name_text =
     example_repo\<lparr>repo_full_name := full_name_text, repo_get_topics := Inl ProviderError\<rparr>"

definition failing_first_search :: "string \<Rightarrow> search_results" where
  "failing_first_search q =
     [Inr (failing_hit ''acme/f1''), Inr (failing_hit ''acme/f2''), Inr (failing_hit ''acme/f3'')]
     @ six_search q"


text \<open>The example repository with a \<open>package.json\<close> that lists its dependencies.\<close>

definition angular_repo :: repo where
  "angular_repo =
     example_repo\<lparr>repo_get_contents :=
       (\<lambda>filename. if filename = ''package.json''
                    then Inr (Inr ''{\"dependencies\": {\"@angular/core\": \"^15.0.0\"}}'')
                    else Inl ProviderError)\<rparr>"


section \<open>The query strings\<close>

subsection \<open>Decimal numbers contain no capital letter\<close>

lemma digit_char_not_O: "d < 10 \<Longrightarrow> digit_char d \<noteq> CHR ''O''"
proof
  assume d: "d < 10" and eq: "digit_char d = CHR ''O''"
  from eq have "(of_char (digit_char d) :: nat) = of_char (CHR ''O'')" by simp
  then have "(48 + d) mod 256 = (79::nat)" by (simp add: digit_char_def)
  with d show False by simp
qed

lemma str_nat_no_O: "CHR ''O'' \<notin> set (str_nat n)"
proof (induction n rule: str_nat.induct)
  case (1 n)
  show ?case
  proof (cases "n < 10")
    case True
    then show ?thesis using digit_char_not_O [of n] by (subst str_nat.simps) auto
  next
    case False
    have "n mod 10 < 10" by simp
    then have "digit_char (n mod 10) \<noteq> CHR ''O''" by (rule digit_char_not_O)
    with False 1 show ?thesis by (subst str_nat.simps) auto
  qed
qed

lemma str_int_no_O: "CHR ''O'' \<notin> set (str_int i)"
  by (simp add: str_int_def str_nat_no_O)

subsection \<open>Every operator needs its own letter O\<close>

lemma count_or_le_tl: "count_or s \<le> count_list (tl s) (CHR ''O'')"
proof (induction s)
  case Nil
  then show ?case by simp
next
  case (Cons c cs)
  show ?case
  proof (cases cs)
    case Nil
    then show ?thesis by simp
  next
    case (Cons d ds)
    with Cons.IH show ?thesis by auto
  qed
qed

lemma count_list_tl_le: "count_list (tl s) x \<le> count_list s x"
  by (cases s) auto

lemma count_or_le: "count_or s \<le> count_list s (CHR ''O'')"
  using count_or_le_tl [of s] count_list_tl_le [of s "CHR ''O''"] by linarith

lemma count_O_str_int: "count_list (str_int i) (CHR ''O'') = 0"
  using str_int_no_O [of i] by (simp add: count_list_0_iff)

lemma count_O_base_query: "count_list (base_query bt st) (CHR ''O'') = 0"
  by (auto simp: base_query_def Let_def count_O_str_int split: option.splits)

lemma count_O_version_queries:
  "q \<in> set (version_queries v bt st) \<Longrightarrow> count_list q (CHR ''O'') \<le> 3"
  by (auto simp: version_queries_def Let_def count_O_base_query split: if_splits)

text \<open>
  C5. Whatever the version, the build tool and the stars threshold, every query string that
  \<open>search_java_version_repos\<close> builds joins at most 5 alternatives with \<open>OR\<close>.
\<close>

theorem version_queries_or_limit:
  "q \<in> set (version_queries version build_tool stars_arg) \<Longrightarrow> or_alternatives q \<le> 5"
  using count_O_version_queries [of q version build_tool stars_arg] count_or_le [of q]
  by (simp add: or_alternatives_def)

theorem version_queries_or_limit_witness:
  "''language:Java stars:>100 pom.xml (java 8 OR java8 OR jdk8 OR \"1.8\")''
     \<in> set (version_queries ''8'' ''maven'' (Some 100))
   \<and> or_alternatives ''language:Java stars:>100 pom.xml (java 8 OR java8 OR jdk8 OR \"1.8\")'' \<le> 5"
proof -
  have mem: "''language:Java stars:>100 pom.xml (java 8 OR java8 OR jdk8 OR \"1.8\")''
     \<in> set (version_queries ''8'' ''maven'' (Some 100))"
    by code_simp
  from mem version_queries_or_limit [OF mem] show ?thesis by simp
qed

text \<open>
  C7. For the free text \<open>parser\<close>, the language \<open>Rust\<close> and the stars threshold 100, with
  no forks threshold and no topics, \<open>search_repos\<close> builds the query string
  \<open>parser language:Rust stars:>100\<close> and sends exactly that one string to the provider.
\<close>

theorem generic_query_example:
  "search_query ''parser'' (Some ''Rust'') None (Some 100) None = ''parser language:Rust stars:>100''
   \<and> snd (search_repos search_repositories ''parser'' (Some ''Rust'') None (Some 100) None max_results)
       = [''parser language:Rust stars:>100'']"
proof -
  have q: "search_query ''parser'' (Some ''Rust'') None (Some 100) None = ''parser language:Rust stars:>100''"
    by code_simp
  then show ?thesis by (simp add: search_repos_def Let_def)
qed

text \<open>
  C6. For a version other than 8, 11, 17 and 21 no query string is built, and
  \<open>search_java_version_repos\<close> returns the empty list without sending any query to the
  provider.
\<close>

theorem unsupported_version_noop:
  "version \<notin> {''8'', ''11'', ''17'', ''21''} \<Longrightarrow>
     version_queries version build_tool stars_arg = []
     \<and> search_java_version_repos lw search_repositories version build_tool stars_arg max_results
         = ([], [])"
  by (simp add: version_queries_def search_java_version_repos_def run_queries_def
      sort_reverse_def slice_to_def Let_def)

theorem unsupported_version_noop_witness:
  "''9'' \<notin> {''8'', ''11'', ''17'', ''21''}
   \<and> version_queries ''9'' ''maven'' (Some 10) = []
   \<and> search_java_version_repos lower_ascii (\<lambda>q. [Inl ProviderError]) ''9'' ''maven'' (Some 10) 50 = ([], [])"
proof -
  have h: "''9'' \<notin> {''8'', ''11'', ''17'', ''21''}" by simp
  from h unsupported_version_noop [OF h] show ?thesis by simp
qed

section \<open>Version scoring: one more keyword, one more topic\<close>

lemma sublist_append_boundary_free:
  assumes "boundary_free k' k"
  shows "sublist k' (t @ k) \<longleftrightarrow> sublist k' t"
proof
  assume "sublist k' (t @ k)"
  then consider "sublist k' t" | "sublist k' k"
    | xs1 xs2 where "k' = xs1 @ xs2" "suffix xs1 t" "prefix xs2 k"
    by (auto simp: sublist_append)
  then show "sublist k' t"
  proof cases
    case 1
    then show ?thesis .
  next
    case 2
    with assms show ?thesis by (simp add: boundary_free_def)
  next
    case 3
    show ?thesis
    proof (cases "xs1 = [] \<or> xs2 = []")
      case True
      then show ?thesis
      proof
        assume "xs1 = []"
        with 3 have "sublist k' k" by auto
        with assms show ?thesis by (simp add: boundary_free_def)
      next
        assume "xs2 = []"
        with 3 show ?thesis by auto
      qed
    next
      case False
      from False have a: "1 \<le> length xs1" by (cases xs1) simp_all
      from False have b: "1 \<le> length xs2" by (cases xs2) simp_all
      from 3 have c: "length k' = length xs1 + length xs2" by simp
      have n: "length xs1 \<in> set [1..<length k']" unfolding set_upt using a b c False by simp
      from 3 have "drop (length xs1) k' = xs2" by simp
      with 3 have "prefix (drop (length xs1) k') k" by simp
      with assms n show ?thesis by (auto simp: boundary_free_def list_all_iff)
    qed
  qed
next
  assume "sublist k' t"
  then show "sublist k' (t @ k)" by (auto simp: sublist_append)
qed

subsection \<open>Keyword texts under \<open>str.lower()\<close>\<close>

lemma keyword_char_ascii: "keyword_char c \<Longrightarrow> ascii_char c"
  by (auto simp: keyword_char_def ascii_char_def)

lemma lower_char_keyword: "keyword_char c \<Longrightarrow> lower_char c = c"
  by (auto simp: keyword_char_def lower_char_def)

lemma lower_ascii_keyword: "list_all keyword_char k \<Longrightarrow> lower_ascii k = k"
  by (induction k) (simp_all add: lower_ascii_def lower_char_keyword)

lemma same_ascii_refl: "same_ascii g g"
  by (simp add: same_ascii_def list_all2_same)

lemma lower_ascii_keeps_keywords: "lower_keeps_keywords lower_ascii"
  unfolding lower_keeps_keywords_def
proof (intro allI impI)
  fix d k assume "list_all keyword_char k"
  then have "lower_ascii k = k" by (rule lower_ascii_keyword)
  moreover have "lower_ascii (d @ k) = lower_ascii d @ lower_ascii k"
    by (simp add: lower_ascii_def)
  ultimately have "lower_ascii (d @ k) = lower_ascii d @ k" by simp
  then show "\<exists>g. lower_ascii (d @ k) = g @ k \<and> same_ascii g (lower_ascii d)"
    using same_ascii_refl by blast
qed

lemma same_ascii_word:
  assumes "list_all2 (\<lambda>a b. a = b \<or> \<not> ascii_char a \<and> \<not> ascii_char b) w w'"
    and "list_all ascii_char w"
  shows "w' = w"
  using assms by (induction w w' rule: list_all2_induct) auto

lemma same_ascii_sublist_imp:
  assumes same: "same_ascii g h" and w: "list_all ascii_char w" and sub: "sublist w g"
  shows "sublist w h"
proof -
  from sub obtain ps ss where g: "g = ps @ w @ ss" by (auto simp: sublist_def)
  from same g obtain ps' r where h: "h = ps' @ r"
    and r: "list_all2 (\<lambda>a b. a = b \<or> \<not> ascii_char a \<and> \<not> ascii_char b) (w @ ss) r"
    by (auto simp: same_ascii_def list_all2_append1)
  from r obtain w' ss' where r': "r = w' @ ss'"
    and w': "list_all2 (\<lambda>a b. a = b \<or> \<not> ascii_char a \<and> \<not> ascii_char b) w w'"
    by (auto simp: list_all2_append1)
  from w' w have "w' = w" by (rule same_ascii_word)
  with h r' show ?thesis by (auto simp: sublist_def)
qed

lemma same_ascii_sym: "same_ascii g h \<Longrightarrow> same_ascii h g"
  unfolding same_ascii_def by (subst list_all2_conv_all_nth) (auto simp: list_all2_conv_all_nth)

lemma same_ascii_sublist:
  "same_ascii g h \<Longrightarrow> list_all ascii_char w \<Longrightarrow> sublist w g \<longleftrightarrow> sublist w h"
  using same_ascii_sublist_imp same_ascii_sym by blast

subsection \<open>The keywords of a version number\<close>

lemma boundary_free_j:
  assumes k': "k' = CHR ''j'' # r'" and k: "k = CHR ''j'' # r"
    and r': "CHR ''j'' \<notin> set r'" and r: "CHR ''j'' \<notin> set r"
    and np: "\<not> prefix k' k"
  shows "boundary_free k' k"
proof -
  have "\<not> sublist k' k"
  proof
    assume "sublist k' k"
    with k np have "sublist k' r" by (simp add: sublist_Cons_right)
    then have "set k' \<subseteq> set r" by (rule set_mono_sublist)
    with k' r show False by auto
  qed
  moreover have "\<not> prefix (drop n k') k" if n: "n \<in> set [1..<length k']" for n
  proof
    assume p: "prefix (drop n k') k"
    from n have "1 \<le> n" and "n < length k'" by simp_all
    with k' obtain i where i: "n = Suc i" "i < length r'" by (cases n) auto
    then have "drop n k' = r' ! i # drop (Suc i) r'" using k' by (simp add: Cons_nth_drop_Suc)
    with p k have "r' ! i = CHR ''j''" by simp
    with i r' show False by (metis nth_mem)
  qed
  ultimately show ?thesis by (simp add: boundary_free_def list_all_iff)
qed

lemma not_prefix_Cons_self: "\<not> prefix (c # v) v"
  using prefix_length_le [of "c # v" v] by auto

lemma not_prefix_self_Cons: "v \<noteq> [] \<Longrightarrow> c \<notin> set v \<Longrightarrow> \<not> prefix v (c # v)"
  by (cases v) auto

lemma digit_or_dot:
  assumes "c \<in> set ''0123456789.''"
  shows "c \<noteq> CHR ''j''" and "c \<noteq> CHR '' ''" and "keyword_char c"
  using assms by (auto simp: keyword_char_def)

lemma version_number_chars:
  assumes "version_number v"
  shows "v \<noteq> []" and "CHR ''j'' \<notin> set v" and "CHR '' '' \<notin> set v" and "list_all keyword_char v"
proof -
  from assms have ne: "v \<noteq> []" and all: "\<forall>c \<in> set v. c \<in> set ''0123456789.''"
    unfolding version_number_def list_all_iff by blast+
  show "v \<noteq> []" by (rule ne)
  show "CHR ''j'' \<notin> set v" using all digit_or_dot(1) by blast
  show "CHR '' '' \<notin> set v" using all digit_or_dot(2) by blast
  show "list_all keyword_char v" unfolding list_all_iff using all digit_or_dot(3) by blast
qed

lemma keywords_8_check:
  "distinct (version_keywords ''8'')
   \<and> list_all (\<lambda>k. list_all keyword_char k
         \<and> list_all (\<lambda>k'. k' = k \<or> boundary_free k' k) (version_keywords ''8''))
       (version_keywords ''8'')"
  by code_simp

lemma keywords_independent:
  assumes v: "version_number v"
  shows "distinct (version_keywords v)"
    and "\<forall>k \<in> set (version_keywords v). list_all keyword_char k"
    and "\<forall>k \<in> set (version_keywords v). \<forall>k' \<in> set (version_keywords v). k' = k \<or> boundary_free k' k"
proof -
  note c = version_number_chars [OF v]
  let ?a = "''java '' @ v" and ?b = "''java'' @ v" and ?c = "''jdk'' @ v"
  have ab: "boundary_free ?a ?b"
    by (rule boundary_free_j [where r' = "''ava '' @ v" and r = "''ava'' @ v"])
       (use c in \<open>simp_all add: not_prefix_Cons_self\<close>)
  have ba: "boundary_free ?b ?a"
    by (rule boundary_free_j [where r' = "''ava'' @ v" and r = "''ava '' @ v"])
       (use c in \<open>simp_all add: not_prefix_self_Cons\<close>)
  have ac: "boundary_free ?a ?c"
    by (rule boundary_free_j [where r' = "''ava '' @ v" and r = "''dk'' @ v"])
       (use c in simp_all)
  have ca: "boundary_free ?c ?a"
    by (rule boundary_free_j [where r' = "''dk'' @ v" and r = "''ava '' @ v"])
       (use c in simp_all)
  have bc: "boundary_free ?b ?c"
    by (rule boundary_free_j [where r' = "''ava'' @ v" and r = "''dk'' @ v"])
       (use c in simp_all)
  have cb: "boundary_free ?c ?b"
    by (rule boundary_free_j [where r' = "''dk'' @ v" and r = "''ava'' @ v"])
       (use c in simp_all)
  have d: "distinct [?a, ?b, ?c]" by simp
  have "list_all keyword_char ''java ''" "list_all keyword_char ''java''" "list_all keyword_char ''jdk''"
    by code_simp+
  with c(4) have kc: "list_all keyword_char ?a" "list_all keyword_char ?b" "list_all keyword_char ?c"
    unfolding list_all_append by blast+
  show "distinct (version_keywords v)"
  proof (cases "v = ''8''")
    case True
    with keywords_8_check show ?thesis by simp
  next
    case False
    with d show ?thesis by (simp add: version_keywords_def)
  qed
  show "\<forall>k \<in> set (version_keywords v). list_all keyword_char k"
  proof (cases "v = ''8''")
    case True
    with keywords_8_check show ?thesis by (simp add: list_all_iff)
  next
    case False
    with kc show ?thesis by (simp add: version_keywords_def)
  qed
  show "\<forall>k \<in> set (version_keywords v). \<forall>k' \<in> set (version_keywords v). k' = k \<or> boundary_free k' k"
  proof (cases "v = ''8''")
    case True
    with keywords_8_check show ?thesis by (simp add: list_all_iff)
  next
    case False
    with ab ba ac ca bc cb show ?thesis by (simp add: version_keywords_def)
  qed
qed

subsection \<open>The two sums of the score\<close>

lemma foldl_add3:
  "foldl (\<lambda>s k. if P k then s + 3 else s) a ks = a + 3 * int (length (filter P ks))"
  by (induction ks arbitrary: a) auto

lemma foldl_add5:
  "foldl (\<lambda>s k. if P k then s + 5 else s) a ks = a + 5 * int (length (filter P ks))"
  by (induction ks arbitrary: a) auto

lemma filter_one_more:
  "distinct ks \<Longrightarrow> k \<in> set ks \<Longrightarrow> \<not> P k \<Longrightarrow> (\<forall>k' \<in> set ks. Q k' \<longleftrightarrow> P k' \<or> k' = k) \<Longrightarrow>
     length (filter Q ks) = Suc (length (filter P ks))"
proof (induction ks)
  case Nil
  then show ?case by simp
next
  case (Cons x xs)
  show ?case
  proof (cases "x = k")
    case True
    with Cons.prems have "k \<notin> set xs" by simp
    with Cons.prems have "\<forall>k' \<in> set xs. Q k' \<longleftrightarrow> P k'" by auto
    then have "filter Q xs = filter P xs" by (simp cong: filter_cong)
    with True Cons.prems show ?thesis by simp
  next
    case False
    with Cons.prems have "length (filter Q xs) = Suc (length (filter P xs))"
      by (intro Cons.IH) auto
    with False Cons.prems show ?thesis by simp
  qed
qed

lemma description_score_eq:
  "description_score t v = 3 * int (length (filter (\<lambda>k. sublist k t) (version_keywords v)))"
  by (simp add: description_score_def foldl_add3)

lemma topics_score_eq:
  "topics_score s tps v = s + 5 * int (length (filter (\<lambda>t. t \<in> set tps) (version_topics v)))"
  by (simp add: topics_score_def foldl_add5)

lemma description_score_append:
  assumes lw: "lower_keeps_keywords lw"
    and v: "version_number v"
    and k: "k \<in> set (version_keywords v)"
    and new: "\<not> sublist k (lw d)"
  shows "description_score (lw (d @ k)) v = description_score (lw d) v + 3"
proof -
  note ind = keywords_independent [OF v]
  from ind(2) k have kk: "list_all keyword_char k" by simp
  with lw obtain g where g: "lw (d @ k) = g @ k" and same: "same_ascii g (lw d)"
    unfolding lower_keeps_keywords_def by blast
  have "\<forall>k' \<in> set (version_keywords v).
          sublist k' (g @ k) \<longleftrightarrow> sublist k' (lw d) \<or> k' = k"
  proof
    fix k' assume k': "k' \<in> set (version_keywords v)"
    with ind(2) have "list_all ascii_char k'"
      by (auto simp: list_all_iff keyword_char_ascii)
    with same have eq: "sublist k' g \<longleftrightarrow> sublist k' (lw d)" by (rule same_ascii_sublist)
    from ind(3) k k' consider "k' = k" | "k' \<noteq> k" "boundary_free k' k" by auto
    then show "sublist k' (g @ k) \<longleftrightarrow> sublist k' (lw d) \<or> k' = k"
    proof cases
      case 1
      then show ?thesis by simp
    next
      case 2
      with eq show ?thesis by (simp add: sublist_append_boundary_free)
    qed
  qed
  with ind(1) k new
  have "length (filter (\<lambda>k'. sublist k' (g @ k)) (version_keywords v))
      = Suc (length (filter (\<lambda>k'. sublist k' (lw d)) (version_keywords v)))"
    by (rule filter_one_more)
  then show ?thesis by (simp add: description_score_eq g)
qed

lemma distinct_version_topics: "distinct (version_topics v)"
  by (simp add: version_topics_def)

lemma topics_score_insert:
  assumes t: "t \<in> set (version_topics v)" and new: "t \<notin> set tps" and tps': "set tps' = insert t (set tps)"
  shows "topics_score s tps' v = topics_score s tps v + 5"
proof -
  from tps' have "\<forall>t' \<in> set (version_topics v). t' \<in> set tps' \<longleftrightarrow> t' \<in> set tps \<or> t' = t" by auto
  with distinct_version_topics t new
  have "length (filter (\<lambda>t'. t' \<in> set tps') (version_topics v))
      = Suc (length (filter (\<lambda>t'. t' \<in> set tps) (version_topics v)))"
    by (rule filter_one_more)
  then show ?thesis by (simp add: topics_score_eq)
qed

lemma topics_score_nonneg: "0 \<le> s \<Longrightarrow> 0 \<le> topics_score s tps v"
  by (simp add: topics_score_eq)

lemma description_score_nonneg: "0 \<le> description_score t v"
  by (simp add: description_score_eq)

text \<open>
  C3. Let \<open>str.lower()\<close> be any function that keeps an appended keyword text, as it does. For
  every version number, so for each of the versions 8, 11, 17 and 21 that reach the scoring,
  appending to the description a keyword of the version's list that the lower-cased
  description does not contain raises the score by exactly 3. For every version, adding to
  the topics a topic whose lower-cased form is one of the three names \<open>java\<close>v, \<open>java-\<close>v,
  \<open>jdk\<close>v and is not yet among the lower-cased topics raises the score by exactly 5. For
  every version the score is not negative.
\<close>

theorem version_score_monotonic:
  "(lower_keeps_keywords lw
      \<and> version_number version
      \<and> keyword \<in> set (version_keywords version)
      \<and> \<not> sublist keyword (lw (or_default (repo_description repo) []))
      \<and> calculate_version_score lw repo version = Inr s
    \<longrightarrow> calculate_version_score lw
          (repo\<lparr>repo_description := Some (or_default (repo_description repo) [] @ keyword)\<rparr>) version
        = Inr (s + 3))
   \<and> (lw topic \<in> set (version_topics version)
      \<and> repo_get_topics repo = Inr ts
      \<and> lw topic \<notin> set (map lw ts)
      \<and> set ts' = insert topic (set ts)
      \<and> calculate_version_score lw repo version = Inr s
    \<longrightarrow> calculate_version_score lw (repo\<lparr>repo_get_topics := Inr ts'\<rparr>) version = Inr (s + 5))
   \<and> (calculate_version_score lw repo version = Inr s \<longrightarrow> 0 \<le> s)"
proof (intro conjI impI)
  assume a: "lower_keeps_keywords lw
      \<and> version_number version
      \<and> keyword \<in> set (version_keywords version)
      \<and> \<not> sublist keyword (lw (or_default (repo_description repo) []))
      \<and> calculate_version_score lw repo version = Inr s"
  let ?d = "or_default (repo_description repo) []"
  from a have k: "keyword \<noteq> []" by auto
  then have od: "or_default (Some (?d @ keyword)) [] = ?d @ keyword"
    by (simp add: or_default_def)
  from a have "description_score (lw (?d @ keyword)) version
      = description_score (lw ?d) version + 3"
    by (intro description_score_append) auto
  with a od show "calculate_version_score lw
      (repo\<lparr>repo_description := Some (?d @ keyword)\<rparr>) version = Inr (s + 3)"
    by (auto simp: calculate_version_score_def Let_def topics_score_eq split: sum.splits)
next
  assume a: "lw topic \<in> set (version_topics version)
      \<and> repo_get_topics repo = Inr ts
      \<and> lw topic \<notin> set (map lw ts)
      \<and> set ts' = insert topic (set ts)
      \<and> calculate_version_score lw repo version = Inr s"
  then have "set (map lw ts') = insert (lw topic) (set (map lw ts))" by auto
  with a have "topics_score sc (map lw ts') version = topics_score sc (map lw ts) version + 5" for sc
    by (intro topics_score_insert) auto
  with a show "calculate_version_score lw (repo\<lparr>repo_get_topics := Inr ts'\<rparr>) version = Inr (s + 5)"
    by (auto simp: calculate_version_score_def Let_def)
next
  assume "calculate_version_score lw repo version = Inr s"
  then show "0 \<le> s"
    using topics_score_nonneg [OF description_score_nonneg]
    by (auto simp: calculate_version_score_def Let_def split: sum.splits)
qed

theorem version_score_monotonic_witness:
  "lower_keeps_keywords lower_ascii
   \<and> version_number ''8'' \<and> version_number ''11'' \<and> version_number ''17'' \<and> version_number ''21''
   \<and> ''lambda'' \<in> set (version_keywords ''8'')
   \<and> \<not> sublist ''lambda'' (lower_ascii (or_default (repo_description example_repo) []))
   \<and> calculate_version_score lower_ascii example_repo ''8'' = Inr 3
   \<and> calculate_version_score lower_ascii
        (example_repo\<lparr>repo_description :=
           Some (or_default (repo_description example_repo) [] @ ''lambda'')\<rparr>) ''8'' = Inr (3 + 3)
   \<and> lower_ascii ''Java8'' \<in> set (version_topics ''8'')
   \<and> repo_get_topics example_repo = Inr [''Maven'']
   \<and> lower_ascii ''Java8'' \<notin> set (map lower_ascii [''Maven''])
   \<and> set [''Maven'', ''Java8''] = insert ''Java8'' (set [''Maven''])
   \<and> calculate_version_score lower_ascii (example_repo\<lparr>repo_get_topics := Inr [''Maven'', ''Java8'']\<rparr>) ''8''
       = Inr (3 + 5)
   \<and> (0::int) \<le> 3"
proof -
  have h0: "version_number ''8'' \<and> version_number ''11'' \<and> version_number ''17'' \<and> version_number ''21''"
    by code_simp
  have h1: "''lambda'' \<in> set (version_keywords ''8'')
      \<and> \<not> sublist ''lambda'' (lower_ascii (or_default (repo_description example_repo) []))
      \<and> calculate_version_score lower_ascii example_repo ''8'' = Inr 3"
    by code_simp
  have h2: "lower_ascii ''Java8'' \<in> set (version_topics ''8'')
      \<and> repo_get_topics example_repo = Inr [''Maven'']
      \<and> lower_ascii ''Java8'' \<notin> set (map lower_ascii [''Maven''])
      \<and> set [''Maven'', ''Java8''] = insert ''Java8'' (set [''Maven''])
      \<and> calculate_version_score lower_ascii example_repo ''8'' = Inr 3"
    by code_simp
  note t = version_score_monotonic [where lw = lower_ascii and version = "''8''"
      and keyword = "''lambda''" and repo = example_repo and s = 3 and topic = "''Java8''"
      and ts = "[''Maven'']" and ts' = "[''Maven'', ''Java8'']"]
  from t h0 h1 lower_ascii_keeps_keywords have c1: "calculate_version_score lower_ascii
        (example_repo\<lparr>repo_description :=
           Some (or_default (repo_description example_repo) [] @ ''lambda'')\<rparr>) ''8'' = Inr (3 + 3)"
    by blast
  from t h2 have c2: "calculate_version_score lower_ascii
        (example_repo\<lparr>repo_get_topics := Inr [''Maven'', ''Java8'']\<rparr>) ''8'' = Inr (3 + 5)"
    by blast
  from t h1 have c3: "(0::int) \<le> 3" by blast
  from lower_ascii_keeps_keywords h0 h1 h2 c1 c2 c3 show ?thesis by blast
qed


section \<open>The loop of \<open>search_repos\<close>\<close>

lemma search_repos_loop_prefix:
  "\<exists>ys. search_repos_loop m repos items = repos @ ys
        \<and> map Inr ys = map hit_info (take (length ys) items)"
proof (induction m repos items rule: search_repos_loop.induct)
  case (1 m repos)
  then show ?case by simp
next
  case (2 m repos e rest)
  then show ?case by simp
next
  case (3 m repos repo rest)
  show ?case
  proof (cases "m \<le> int (length repos)")
    case True
    then show ?thesis by simp
  next
    case False
    show ?thesis
    proof (cases "repo_info_of repo")
      case (Inl e)
      with False show ?thesis by simp
    next
      case (Inr info)
      with False 3 obtain ys where ys: "search_repos_loop m (repos @ [info]) rest = (repos @ [info]) @ ys"
        "map Inr ys = map hit_info (take (length ys) rest)"
        by blast
      from False Inr ys have "search_repos_loop m repos (Inr repo # rest) = repos @ (info # ys)"
        by simp
      moreover from Inr ys have "map Inr (info # ys) = map hit_info (take (length (info # ys)) (Inr repo # rest))"
        by (simp add: hit_info_def)
      ultimately show ?thesis by blast
    qed
  qed
qed

lemma search_repos_loop_good:
  "\<forall>item \<in> set (take (nat m - length repos) items). \<not> isl (hit_info item) \<Longrightarrow>
     search_repos_loop m repos items
       = repos @ map (projr \<circ> hit_info) (take (nat m - length repos) items)"
proof (induction m repos items rule: search_repos_loop.induct)
  case (1 m repos)
  then show ?case by simp
next
  case (2 m repos e rest)
  have "nat m - length repos = 0"
  proof (rule ccontr)
    assume "nat m - length repos \<noteq> 0"
    then obtain k where "nat m - length repos = Suc k" by (cases "nat m - length repos") auto
    with 2 show False by (simp add: hit_info_def)
  qed
  then show ?case by simp
next
  case (3 m repos repo rest)
  show ?case
  proof (cases "m \<le> int (length repos)")
    case True
    then have "nat m - length repos = 0" by simp
    with True show ?thesis by simp
  next
    case False
    then obtain k where k: "nat m - length repos = Suc k" by (cases "nat m - length repos") auto
    with "3.prems" have ok: "\<not> isl (repo_info_of repo)" by (simp add: hit_info_def)
    then obtain info where info: "repo_info_of repo = Inr info" by (cases "repo_info_of repo") auto
    from k have k': "nat m - length (repos @ [info]) = k" by simp
    from "3.prems" k have "\<forall>item \<in> set (take k rest). \<not> isl (hit_info item)" by simp
    with k' have "search_repos_loop m (repos @ [info]) rest
        = (repos @ [info]) @ map (projr \<circ> hit_info) (take k rest)"
      using "3.IH" [OF False info] by simp
    with False info k show ?thesis by (simp add: hit_info_def)
  qed
qed

section \<open>One hit of the Java-version search\<close>

lemma java_repo_info_of_fields:
  assumes "java_repo_info_of lw v r = Inr info"
  shows "name info = repo_full_name r"
    and "stars info = repo_stargazers_count r"
    and "java_version info = v"
    and "calculate_version_score lw r v = Inr (version_score info)"
  using assms
  by (auto simp: java_repo_info_of_def split: prod.splits sum.splits)

lemma repo_info_of_name: "repo_info_of r = Inr info \<Longrightarrow> name info = repo_full_name r"
  by (auto simp: repo_info_of_def split: prod.splits sum.splits)

section \<open>The inner loop of \<open>search_java_version_repos\<close>\<close>

lemma java_version_loop_cap:
  "m \<le> int (length (fst st)) \<Longrightarrow> java_version_loop lw v m st items = st"
proof (cases st)
  case (Pair all_repos seen)
  assume "m \<le> int (length (fst st))"
  with Pair show ?thesis
    by (cases items; cases "hd items") auto
qed

lemma java_version_loop_length:
  "int (length (fst (java_version_loop lw v m st items))) \<le> max (int (length (fst st))) m"
  by (induction lw v m st items rule: java_version_loop.induct) (auto split: sum.splits)

lemma java_version_loop_distinct:
  "distinct (map name (fst st)) \<and> name ` set (fst st) \<subseteq> snd st \<Longrightarrow>
     distinct (map name (fst (java_version_loop lw v m st items)))
     \<and> name ` set (fst (java_version_loop lw v m st items)) \<subseteq> snd (java_version_loop lw v m st items)"
proof (induction lw v m st items rule: java_version_loop.induct)
  case (1 lw v m all_repos seen)
  then show ?case by simp
next
  case (2 lw v m all_repos seen e rest)
  then show ?case by simp
next
  case (3 lw v m all_repos seen repo rest)
  show ?case
  proof (cases "m \<le> int (length all_repos)")
    case True
    with "3.prems" show ?thesis by simp
  next
    case False
    show ?thesis
    proof (cases "repo_full_name repo \<in> seen")
      case True
      with False 3 show ?thesis by simp
    next
      case new: False
      show ?thesis
      proof (cases "java_repo_info_of lw v repo")
        case (Inl e)
        with False new "3.prems" show ?thesis by auto
      next
        case (Inr info)
        then have n: "name info = repo_full_name repo" by (rule java_repo_info_of_fields)
        with new "3.prems" have "distinct (map name (all_repos @ [info]))
            \<and> name ` set (all_repos @ [info]) \<subseteq> insert (repo_full_name repo) seen"
          by auto
        with False new Inr "3.IH"(1) show ?thesis by simp
      qed
    qed
  qed
qed

lemma java_version_loop_source:
  "r \<in> set (fst (java_version_loop lw v m st items)) \<Longrightarrow>
     r \<in> set (fst st) \<or> (\<exists>h. Inr h \<in> set items \<and> java_repo_info_of lw v h = Inr r)"
proof (induction lw v m st items rule: java_version_loop.induct)
  case (1 lw v m all_repos seen)
  then show ?case by simp
next
  case (2 lw v m all_repos seen e rest)
  then show ?case by simp
next
  case (3 lw v m all_repos seen repo rest)
  show ?case
  proof (cases "m \<le> int (length all_repos)")
    case True
    with "3.prems" show ?thesis by simp
  next
    case False
    show ?thesis
    proof (cases "repo_full_name repo \<in> seen")
      case True
      with False 3 show ?thesis by auto
    next
      case new: False
      show ?thesis
      proof (cases "java_repo_info_of lw v repo")
        case (Inl e)
        with False new "3.prems" show ?thesis by auto
      next
        case (Inr info)
        with False new "3.prems"
        have "r \<in> set (fst (java_version_loop lw v m
                (all_repos @ [info], insert (repo_full_name repo) seen) rest))"
          by simp
        with False new Inr "3.IH"(1)
        have "r \<in> set (all_repos @ [info])
            \<or> (\<exists>h. Inr h \<in> set rest \<and> java_repo_info_of lw v h = Inr r)"
          by simp
        with Inr show ?thesis by auto
      qed
    qed
  qed
qed

lemma java_version_loop_discard:
  assumes "repo_full_name h \<in> snd st"
  shows "java_version_loop lw v m st (Inr h # rest) = java_version_loop lw v m st rest"
proof (cases st)
  case (Pair all_repos seen)
  show ?thesis
  proof (cases "m \<le> int (length all_repos)")
    case True
    with Pair have "java_version_loop lw v m st rest = st" by (intro java_version_loop_cap) simp
    with True Pair show ?thesis by simp
  next
    case False
    with Pair assms show ?thesis by simp
  qed
qed

lemma java_version_loop_supplied:
  "java_version_loop lw v m st items = java_version_loop lw v m st (map Inr (supplied items))"
  by (induction lw v m st items rule: java_version_loop.induct)
     (auto simp: supplied_def split: sum.splits)

lemma java_version_loop_append:
  "\<forall>h \<in> set hs1. \<not> isl (java_repo_info_of lw v h) \<Longrightarrow>
     java_version_loop lw v m (java_version_loop lw v m st (map Inr hs1)) (map Inr hs2)
       = java_version_loop lw v m st (map Inr (hs1 @ hs2))"
proof (induction hs1 arbitrary: st)
  case Nil
  then show ?case by (cases st) simp
next
  case (Cons h hs1)
  obtain all_repos seen where st: "st = (all_repos, seen)" by (cases st)
  show ?case
  proof (cases "m \<le> int (length all_repos)")
    case True
    with st have "java_version_loop lw v m st (map Inr hs2) = st"
      by (intro java_version_loop_cap) simp
    with True st show ?thesis by simp
  next
    case False
    show ?thesis
    proof (cases "repo_full_name h \<in> seen")
      case True
      with False st Cons show ?thesis by simp
    next
      case new: False
      from Cons.prems obtain info where "java_repo_info_of lw v h = Inr info"
        by (cases "java_repo_info_of lw v h") auto
      with False new st Cons show ?thesis by simp
    qed
  qed
qed

lemma java_version_loop_fresh:
  "\<forall>h \<in> set hs. \<not> isl (java_repo_info_of lw v h) \<Longrightarrow>
     fst (java_version_loop lw v m (all_repos, seen) (map Inr hs))
       = all_repos @ map (projr \<circ> java_repo_info_of lw v) (take (nat m - length all_repos) (fresh seen hs))"
proof (induction hs arbitrary: all_repos seen)
  case Nil
  then show ?case by simp
next
  case (Cons h hs)
  show ?case
  proof (cases "m \<le> int (length all_repos)")
    case True
    then have "nat m - length all_repos = 0" by simp
    with True show ?thesis by simp
  next
    case False
    then obtain k where k: "nat m - length all_repos = Suc k"
      by (cases "nat m - length all_repos") auto
    show ?thesis
    proof (cases "repo_full_name h \<in> seen")
      case True
      with False Cons show ?thesis by simp
    next
      case new: False
      from Cons.prems obtain info where info: "java_repo_info_of lw v h = Inr info"
        by (cases "java_repo_info_of lw v h") auto
      from k have k': "nat m - length (all_repos @ [info]) = k" by simp
      from Cons.prems have "\<forall>h \<in> set hs. \<not> isl (java_repo_info_of lw v h)" by simp
      from Cons.IH [OF this, of "all_repos @ [info]" "insert (repo_full_name h) seen"] k'
      have "fst (java_version_loop lw v m (all_repos @ [info], insert (repo_full_name h) seen) (map Inr hs))
          = (all_repos @ [info]) @ map (projr \<circ> java_repo_info_of lw v)
              (take k (fresh (insert (repo_full_name h) seen) hs))"
        by simp
      with False new info k show ?thesis by simp
    qed
  qed
qed

section \<open>First occurrences\<close>

lemma fresh_first:
  "h \<in> set (fresh seen hs) \<Longrightarrow>
     repo_full_name h \<notin> seen
     \<and> List.find (\<lambda>x. repo_full_name x = repo_full_name h) hs = Some h"
proof (induction hs arbitrary: seen)
  case Nil
  then show ?case by simp
next
  case (Cons x xs)
  show ?case
  proof (cases "repo_full_name x \<in> seen")
    case True
    with Cons.prems have "h \<in> set (fresh seen xs)" by simp
    then have "repo_full_name h \<notin> seen
        \<and> List.find (\<lambda>x. repo_full_name x = repo_full_name h) xs = Some h"
      by (rule Cons.IH)
    with True show ?thesis by auto
  next
    case False
    with Cons.prems consider "h = x" | "h \<in> set (fresh (insert (repo_full_name x) seen) xs)"
      by auto
    then show ?thesis
    proof cases
      case 1
      with False show ?thesis by simp
    next
      case 2
      then have "repo_full_name h \<notin> insert (repo_full_name x) seen
          \<and> List.find (\<lambda>x. repo_full_name x = repo_full_name h) xs = Some h"
        by (rule Cons.IH)
      then show ?thesis by auto
    qed
  qed
qed

section \<open>The loop over the queries\<close>

lemma foldl_run_query_log:
  "snd (foldl (run_query lw p v m) s qs) = snd s @ qs"
  by (induction qs arbitrary: s) (simp_all add: run_query_def)

lemma foldl_run_query_length:
  "int (length (fst (fst (foldl (run_query lw p v m) s qs)))) \<le> max (int (length (fst (fst s)))) m"
proof (induction qs arbitrary: s)
  case Nil
  then show ?case by simp
next
  case (Cons q qs)
  have "int (length (fst (fst (foldl (run_query lw p v m) (run_query lw p v m s q) qs))))
      \<le> max (int (length (fst (fst (run_query lw p v m s q))))) m"
    by (rule Cons.IH)
  moreover have "int (length (fst (fst (run_query lw p v m s q)))) \<le> max (int (length (fst (fst s)))) m"
    by (simp add: run_query_def java_version_loop_length)
  ultimately show ?case by simp
qed

lemma foldl_run_query_distinct:
  "distinct (map name (fst (fst s))) \<and> name ` set (fst (fst s)) \<subseteq> snd (fst s) \<Longrightarrow>
     distinct (map name (fst (fst (foldl (run_query lw p v m) s qs))))
     \<and> name ` set (fst (fst (foldl (run_query lw p v m) s qs))) \<subseteq> snd (fst (foldl (run_query lw p v m) s qs))"
proof (induction qs arbitrary: s)
  case Nil
  then show ?case by simp
next
  case (Cons q qs)
  from Cons.prems
  have "distinct (map name (fst (fst (run_query lw p v m s q))))
      \<and> name ` set (fst (fst (run_query lw p v m s q))) \<subseteq> snd (fst (run_query lw p v m s q))"
    using java_version_loop_distinct [of "fst s" lw v m "p q"] by (simp add: run_query_def)
  then show ?case using Cons.IH [of "run_query lw p v m s q"] by simp
qed

lemma foldl_run_query_source:
  "r \<in> set (fst (fst (foldl (run_query lw p v m) s qs))) \<Longrightarrow>
     r \<in> set (fst (fst s))
     \<or> (\<exists>q \<in> set qs. \<exists>h. Inr h \<in> set (p q) \<and> java_repo_info_of lw v h = Inr r)"
proof (induction qs arbitrary: s)
  case Nil
  then show ?case by simp
next
  case (Cons q qs)
  from Cons.prems have "r \<in> set (fst (fst (foldl (run_query lw p v m) (run_query lw p v m s q) qs)))"
    by simp
  then have "r \<in> set (fst (fst (run_query lw p v m s q)))
      \<or> (\<exists>q \<in> set qs. \<exists>h. Inr h \<in> set (p q) \<and> java_repo_info_of lw v h = Inr r)"
    by (rule Cons.IH)
  moreover have "r \<in> set (fst (fst (run_query lw p v m s q))) \<Longrightarrow>
      r \<in> set (fst (fst s)) \<or> (\<exists>h. Inr h \<in> set (p q) \<and> java_repo_info_of lw v h = Inr r)"
    using java_version_loop_source [of r lw v m "fst s" "p q"] by (simp add: run_query_def)
  ultimately show ?case by auto
qed

lemma foldl_run_query_supplied:
  "\<forall>h \<in> set (supplied_hits p qs). \<not> isl (java_repo_info_of lw v h) \<Longrightarrow>
     fst (foldl (run_query lw p v m) s qs)
       = java_version_loop lw v m (fst s) (map Inr (supplied_hits p qs))"
proof (induction qs arbitrary: s)
  case Nil
  then show ?case by (cases "fst s") (simp add: supplied_hits_def)
next
  case (Cons q qs)
  from Cons.prems have good_q: "\<forall>h \<in> set (supplied (p q)). \<not> isl (java_repo_info_of lw v h)"
    and good_qs: "\<forall>h \<in> set (supplied_hits p qs). \<not> isl (java_repo_info_of lw v h)"
    by (auto simp: supplied_hits_def)
  have "fst (foldl (run_query lw p v m) s (q # qs))
      = fst (foldl (run_query lw p v m) (run_query lw p v m s q) qs)"
    by simp
  also have "\<dots> = java_version_loop lw v m (fst (run_query lw p v m s q)) (map Inr (supplied_hits p qs))"
    using good_qs by (rule Cons.IH)
  also have "fst (run_query lw p v m s q) = java_version_loop lw v m (fst s) (map Inr (supplied (p q)))"
    using java_version_loop_supplied [of lw v m "fst s" "p q"] by (simp add: run_query_def)
  also have "java_version_loop lw v m (java_version_loop lw v m (fst s) (map Inr (supplied (p q))))
        (map Inr (supplied_hits p qs))
      = java_version_loop lw v m (fst s) (map Inr (supplied (p q) @ supplied_hits p qs))"
    using good_q by (rule java_version_loop_append)
  also have "supplied (p q) @ supplied_hits p qs = supplied_hits p (q # qs)"
    by (simp add: supplied_hits_def)
  finally show ?case .
qed

section \<open>The list before and after the sort\<close>

lemma merged_repos_length: "int (length (merged_repos lw p v bt st m)) \<le> max 0 m"
  using foldl_run_query_length [of lw p v m "(([], {}), [])" "version_queries v bt st"]
  by (simp add: merged_repos_def run_queries_def)

lemma merged_repos_distinct: "distinct (map name (merged_repos lw p v bt st m))"
  using foldl_run_query_distinct [of "(([], {}), [])" lw p v m "version_queries v bt st"]
  by (simp add: merged_repos_def run_queries_def)

lemma merged_repos_source:
  "r \<in> set (merged_repos lw p v bt st m) \<Longrightarrow>
     \<exists>q \<in> set (version_queries v bt st). \<exists>h. Inr h \<in> set (p q) \<and> java_repo_info_of lw v h = Inr r"
  using foldl_run_query_source [of r lw p v m "(([], {}), [])" "version_queries v bt st"]
  by (simp add: merged_repos_def run_queries_def)

lemma merged_repos_fresh:
  assumes "\<forall>h \<in> set (supplied_hits p (version_queries v bt st)). \<not> isl (java_repo_info_of lw v h)"
  shows "merged_repos lw p v bt st m
     = map (projr \<circ> java_repo_info_of lw v)
         (take (nat m) (fresh {} (supplied_hits p (version_queries v bt st))))"
proof -
  have "merged_repos lw p v bt st m
      = fst (java_version_loop lw v m ([], {}) (map Inr (supplied_hits p (version_queries v bt st))))"
    using foldl_run_query_supplied [OF assms, of m "(([], {}), [])"]
    by (simp add: merged_repos_def run_queries_def)
  also have "\<dots> = [] @ map (projr \<circ> java_repo_info_of lw v)
      (take (nat m - length ([] :: java_repo_info list))
         (fresh {} (supplied_hits p (version_queries v bt st))))"
    using assms by (rule java_version_loop_fresh)
  finally show ?thesis by simp
qed

lemma slice_to_all: "int (length xs) \<le> max 0 m \<Longrightarrow> slice_to xs m = xs"
  by (auto simp: slice_to_def)

lemma length_sort_reverse: "length (sort_reverse k xs) = length xs"
  by (simp add: sort_reverse_def)

lemma mset_sort_reverse: "mset (sort_reverse k xs) = mset xs"
  by (simp add: sort_reverse_def)

lemma set_sort_reverse: "set (sort_reverse k xs) = set xs"
  by (simp add: sort_reverse_def)

lemma search_java_version_repos_sorted:
  "fst (search_java_version_repos lw p v bt st m) = sort_reverse sort_key_of (merged_repos lw p v bt st m)"
  using merged_repos_length [of lw p v bt st m]
  by (simp add: search_java_version_repos_def Let_def merged_repos_def slice_to_all
      length_sort_reverse)

lemma search_java_version_repos_log:
  "snd (search_java_version_repos lw p v bt st m) = version_queries v bt st"
  by (simp add: search_java_version_repos_def Let_def run_queries_def foldl_run_query_log)

lemma sorted_sort_reverse:
  "sorted_wrt (\<lambda>a b. k b \<le> k a) (sort_reverse k xs)"
proof -
  have "sorted (map k (sort_key k (rev xs)))" by simp
  then have "sorted_wrt (\<lambda>a b. k a \<le> k b) (sort_key k (rev xs))"
    by (simp add: sorted_map)
  then show ?thesis by (simp add: sort_reverse_def sorted_wrt_rev)
qed

lemma sort_reverse_stable:
  "filter (\<lambda>y. k y = c) (sort_reverse k xs) = filter (\<lambda>y. k y = c) xs"
  by (simp add: sort_reverse_def rev_filter [symmetric] sort_key_stable)

section \<open>A failing lookup changes one field of one record\<close>

lemma repo_info_of_fail_lookup:
  "repo_info_of (fail_lookup l e r) = map_sum id (placeholder l) (repo_info_of r)"
  by (cases l)
     (auto simp: repo_info_of_def contributors_count_def commits_count_def license_name_def
        last_commit_info_def split: sum.splits prod.splits option.splits)

lemma calculate_version_score_fail_lookup:
  "calculate_version_score lw (fail_lookup l e r) v = calculate_version_score lw r v"
  by (cases l) (simp_all add: calculate_version_score_def)

lemma java_repo_info_of_fail_lookup:
  "java_repo_info_of lw v (fail_lookup l e r) = map_sum id (placeholder l) (java_repo_info_of lw v r)"
  by (cases l)
     (auto simp: java_repo_info_of_def calculate_version_score_def Let_def
        contributors_count_def commits_count_def license_name_def
        last_commit_info_def split: sum.splits prod.splits option.splits)

lemma full_name_fail_lookup: "repo_full_name (fail_lookup l e r) = repo_full_name r"
  by (cases l) simp_all

lemma name_placeholder: "name (placeholder l info) = name info"
  by (cases l) simp_all

lemma sort_key_of_placeholder: "sort_key_of (placeholder l info) = sort_key_of info"
  by (cases l) (simp_all add: sort_key_of_def)

lemma repo_info_of_failing:
  "repo_info_of (if repo_full_name r \<in> N then fail_lookup l e r else r)
     = map_sum id (\<lambda>info. if name info \<in> N then placeholder l info else info) (repo_info_of r)"
proof (cases "repo_info_of r")
  case (Inl x)
  then show ?thesis by (simp add: repo_info_of_fail_lookup)
next
  case (Inr info)
  then have "name info = repo_full_name r" by (rule repo_info_of_name)
  with Inr show ?thesis by (simp add: repo_info_of_fail_lookup)
qed

lemma java_repo_info_of_failing:
  "java_repo_info_of lw v (if repo_full_name r \<in> N then fail_lookup l e r else r)
     = map_sum id (\<lambda>info. if name info \<in> N then placeholder l info else info)
         (java_repo_info_of lw v r)"
proof (cases "java_repo_info_of lw v r")
  case (Inl x)
  then show ?thesis by (simp add: java_repo_info_of_fail_lookup)
next
  case (Inr info)
  then have "name info = repo_full_name r" by (rule java_repo_info_of_fields)
  with Inr show ?thesis by (simp add: java_repo_info_of_fail_lookup)
qed

lemma search_repos_loop_failing:
  "search_repos_loop m (degraded l N repos) (failing_for l e N items)
     = degraded l N (search_repos_loop m repos items)"
proof (induction m repos items rule: search_repos_loop.induct)
  case (1 m repos)
  then show ?case by (simp add: failing_for_def)
next
  case (2 m repos e' rest)
  then show ?case by (simp add: failing_for_def)
next
  case (3 m repos repo rest)
  show ?case
  proof (cases "m \<le> int (length repos)")
    case True
    then show ?thesis by (simp add: failing_for_def degraded_def)
  next
    case False
    show ?thesis
    proof (cases "repo_info_of repo")
      case (Inl x)
      with False show ?thesis
        using repo_info_of_failing [of repo N l e]
        by (simp add: failing_for_def degraded_def)
    next
      case (Inr info)
      with False "3.IH" have "search_repos_loop m (degraded l N (repos @ [info])) (failing_for l e N rest)
          = degraded l N (search_repos_loop m (repos @ [info]) rest)"
        by simp
      with False Inr show ?thesis
        using repo_info_of_failing [of repo N l e]
        by (simp add: failing_for_def degraded_def)
    qed
  qed
qed

lemma java_version_loop_failing:
  "java_version_loop lw v m (degraded l N (fst st), snd st) (failing_for l e N items)
     = (degraded l N (fst (java_version_loop lw v m st items)), snd (java_version_loop lw v m st items))"
proof (induction lw v m st items rule: java_version_loop.induct)
  case (1 lw v m all_repos seen)
  then show ?case by (simp add: failing_for_def)
next
  case (2 lw v m all_repos seen e' rest)
  then show ?case by (simp add: failing_for_def)
next
  case (3 lw v m all_repos seen repo rest)
  show ?case
  proof (cases "m \<le> int (length all_repos)")
    case True
    then show ?thesis by (simp add: failing_for_def degraded_def)
  next
    case False
    show ?thesis
    proof (cases "repo_full_name repo \<in> seen")
      case True
      with False "3.IH"(2) show ?thesis
        by (simp add: failing_for_def degraded_def full_name_fail_lookup)
    next
      case new: False
      show ?thesis
      proof (cases "java_repo_info_of lw v repo")
        case (Inl x)
        with False new show ?thesis
          using java_repo_info_of_failing [of lw v repo N l e]
          by (simp add: failing_for_def degraded_def full_name_fail_lookup)
      next
        case (Inr info)
        with False new "3.IH"(1)
        have "java_version_loop lw v m
                (degraded l N (all_repos @ [info]), insert (repo_full_name repo) seen)
                (failing_for l e N rest)
            = (degraded l N (fst (java_version_loop lw v m
                  (all_repos @ [info], insert (repo_full_name repo) seen) rest)),
               snd (java_version_loop lw v m
                  (all_repos @ [info], insert (repo_full_name repo) seen) rest))"
          by simp
        with False new Inr show ?thesis
          using java_repo_info_of_failing [of lw v repo N l e]
          by (simp add: failing_for_def degraded_def full_name_fail_lookup)
      qed
    qed
  qed
qed

lemma foldl_run_query_failing:
  "foldl (run_query lw (\<lambda>q. failing_for l e N (p q)) v m)
       ((degraded l N (fst (fst s)), snd (fst s)), snd s) qs
     = ((degraded l N (fst (fst (foldl (run_query lw p v m) s qs))),
         snd (fst (foldl (run_query lw p v m) s qs))),
        snd (foldl (run_query lw p v m) s qs))"
proof (induction qs arbitrary: s)
  case Nil
  then show ?case by simp
next
  case (Cons q qs)
  have "run_query lw (\<lambda>q. failing_for l e N (p q)) v m
          ((degraded l N (fst (fst s)), snd (fst s)), snd s) q
      = ((degraded l N (fst (fst (run_query lw p v m s q))), snd (fst (run_query lw p v m s q))),
         snd (run_query lw p v m s q))"
    using java_version_loop_failing [of lw v m l N "fst s" e "p q"]
    by (simp add: run_query_def)
  then show ?case using Cons.IH [of "run_query lw p v m s q"] by simp
qed

lemma insort_key_map_same:
  "(\<And>y. k (f y) = k y) \<Longrightarrow> insort_key k (f x) (map f xs) = map f (insort_key k x xs)"
  by (induction xs) simp_all

lemma sort_key_map_same:
  "(\<And>y. k (f y) = k y) \<Longrightarrow> sort_key k (map f xs) = map f (sort_key k xs)"
  by (induction xs) (simp_all add: insort_key_map_same)

lemma sort_reverse_degraded:
  "sort_reverse sort_key_of (degraded l N xs) = degraded l N (sort_reverse sort_key_of xs)"
proof -
  have "sort_key_of (if name y \<in> N then placeholder l y else y) = sort_key_of y" for y :: java_repo_info
    by (simp add: sort_key_of_placeholder)
  then have "sort_key sort_key_of (map (\<lambda>info. if name info \<in> N then placeholder l info else info) ys)
      = map (\<lambda>info. if name info \<in> N then placeholder l info else info) (sort_key sort_key_of ys)" for ys
    by (rule sort_key_map_same)
  then show ?thesis by (simp add: sort_reverse_def degraded_def rev_map)
qed

lemma merged_repos_failing:
  "merged_repos lw (\<lambda>q. failing_for l e N (p q)) v bt st m = degraded l N (merged_repos lw p v bt st m)"
  using foldl_run_query_failing [of lw l e N p v m "(([], {}), [])" "version_queries v bt st"]
  by (simp add: merged_repos_def run_queries_def degraded_def)

text \<open>
  C1. The list that \<open>search_java_version_repos\<close> returns never holds two records of the
  same name. Every record in it is the record built from one hit of one of the queries'
  streams, nothing merged into it; a hit whose name is already in \<open>seen_repos\<close> is skipped
  by the loop; and when no stream item fails to become a record, the record of a name is the
  one built from the first hit of that name among all the hits supplied.
\<close>

theorem java_version_search_no_duplicates:
  "distinct (map name (fst (search_java_version_repos lw p v bt st m)))
   \<and> (\<forall>r \<in> set (fst (search_java_version_repos lw p v bt st m)).
         \<exists>q \<in> set (version_queries v bt st). \<exists>h. Inr h \<in> set (p q) \<and> java_repo_info_of lw v h = Inr r)
   \<and> (repo_full_name h \<in> seen \<longrightarrow>
         java_version_loop lw v m (all_repos, seen) (Inr h # rest)
           = java_version_loop lw v m (all_repos, seen) rest)
   \<and> ((\<forall>h \<in> set (supplied_hits p (version_queries v bt st)). \<not> isl (java_repo_info_of lw v h)) \<longrightarrow>
        (\<forall>r \<in> set (fst (search_java_version_repos lw p v bt st m)).
           \<exists>h. List.find (\<lambda>x. repo_full_name x = name r) (supplied_hits p (version_queries v bt st))
                  = Some h
               \<and> java_repo_info_of lw v h = Inr r))"
proof (intro conjI impI ballI)
  have "mset (map name (fst (search_java_version_repos lw p v bt st m)))
      = mset (map name (merged_repos lw p v bt st m))"
    by (simp add: search_java_version_repos_sorted mset_sort_reverse)
  then show "distinct (map name (fst (search_java_version_repos lw p v bt st m)))"
    using merged_repos_distinct [of lw p v bt st m] by (metis mset_eq_imp_distinct_iff)
next
  fix r assume "r \<in> set (fst (search_java_version_repos lw p v bt st m))"
  then have "r \<in> set (merged_repos lw p v bt st m)"
    by (simp add: search_java_version_repos_sorted set_sort_reverse)
  then show "\<exists>q \<in> set (version_queries v bt st). \<exists>h. Inr h \<in> set (p q) \<and> java_repo_info_of lw v h = Inr r"
    by (rule merged_repos_source)
next
  assume "repo_full_name h \<in> seen"
  then show "java_version_loop lw v m (all_repos, seen) (Inr h # rest)
      = java_version_loop lw v m (all_repos, seen) rest"
    by (intro java_version_loop_discard) simp
next
  fix r
  let ?hits = "supplied_hits p (version_queries v bt st)"
  assume good: "\<forall>h \<in> set ?hits. \<not> isl (java_repo_info_of lw v h)"
    and "r \<in> set (fst (search_java_version_repos lw p v bt st m))"
  then have "r \<in> set (merged_repos lw p v bt st m)"
    by (simp add: search_java_version_repos_sorted set_sort_reverse)
  with good have "r \<in> set (map (projr \<circ> java_repo_info_of lw v) (take (nat m) (fresh {} ?hits)))"
    by (simp add: merged_repos_fresh)
  then obtain h where h: "h \<in> set (take (nat m) (fresh {} ?hits))"
    and r: "r = projr (java_repo_info_of lw v h)"
    by auto
  from h have fresh: "h \<in> set (fresh {} ?hits)" by (rule in_set_takeD)
  then have first: "List.find (\<lambda>x. repo_full_name x = repo_full_name h) ?hits = Some h"
    using fresh_first [of h "{}" ?hits] by simp
  then have "h \<in> set ?hits" by (auto simp: find_Some_iff)
  with good have "\<not> isl (java_repo_info_of lw v h)" by simp
  with r have info: "java_repo_info_of lw v h = Inr r" by (cases "java_repo_info_of lw v h") auto
  then have "name r = repo_full_name h" by (rule java_repo_info_of_fields)
  with first info
  show "\<exists>h. List.find (\<lambda>x. repo_full_name x = name r) ?hits = Some h \<and> java_repo_info_of lw v h = Inr r"
    by auto
qed

theorem java_version_search_no_duplicates_witness:
  "list_all (\<lambda>h. \<not> isl (java_repo_info_of lower_ascii ''8'' h))
     (supplied_hits example_search (version_queries ''8'' [] None))
   \<and> map repo_full_name (supplied_hits example_search (version_queries ''8'' [] None))
       = concat (replicate 4 [''acme/alpha'', ''acme/beta'', ''acme/alpha'', ''acme/gamma'', ''acme/delta''])
   \<and> map name (fst (search_java_version_repos lower_ascii example_search ''8'' [] None 10))
       = [''acme/beta'', ''acme/alpha'', ''acme/gamma'', ''acme/delta'']
   \<and> map description (fst (search_java_version_repos lower_ascii example_search ''8'' [] None 10))
       = [''A tool'', ''Java 8 app'', ''Needs JDK8'', ''Plain'']
   \<and> distinct (map name (fst (search_java_version_repos lower_ascii example_search ''8'' [] None 10)))
   \<and> repo_full_name (hit ''acme/alpha'' ''Another description'' 99 []) \<in> {''acme/alpha''}
   \<and> java_version_loop lower_ascii ''8'' 10 ([], {''acme/alpha''})
         [Inr (hit ''acme/alpha'' ''Another description'' 99 [])]
       = java_version_loop lower_ascii ''8'' 10 ([], {''acme/alpha''}) []"
proof -
  have good: "list_all (\<lambda>h. \<not> isl (java_repo_info_of lower_ascii ''8'' h))
     (supplied_hits example_search (version_queries ''8'' [] None))"
    by code_simp
  have hits: "map repo_full_name (supplied_hits example_search (version_queries ''8'' [] None))
       = concat (replicate 4 [''acme/alpha'', ''acme/beta'', ''acme/alpha'', ''acme/gamma'', ''acme/delta''])"
    by code_simp
  have names: "map name (fst (search_java_version_repos lower_ascii example_search ''8'' [] None 10))
       = [''acme/beta'', ''acme/alpha'', ''acme/gamma'', ''acme/delta'']"
    by code_simp
  have descriptions: "map description (fst (search_java_version_repos lower_ascii example_search ''8'' [] None 10))
       = [''A tool'', ''Java 8 app'', ''Needs JDK8'', ''Plain'']"
    by code_simp
  have seen: "repo_full_name (hit ''acme/alpha'' ''Another description'' 99 []) \<in> {''acme/alpha''}"
    by (simp add: hit_def)
  note t = java_version_search_no_duplicates [of lower_ascii example_search "''8''" "[]" None 10
      "hit ''acme/alpha'' ''Another description'' 99 []" "{''acme/alpha''}" "[]" "[]"]
  from t have dist: "distinct (map name (fst (search_java_version_repos lower_ascii example_search ''8'' [] None 10)))"
    by blast
  from t seen have skip: "java_version_loop lower_ascii ''8'' 10 ([], {''acme/alpha''})
         [Inr (hit ''acme/alpha'' ''Another description'' 99 [])]
       = java_version_loop lower_ascii ''8'' 10 ([], {''acme/alpha''}) []"
    by blast
  from good hits names descriptions dist seen skip show ?thesis by blast
qed

section \<open>Eligible hits\<close>

lemma search_repos_loop_eligible:
  "search_repos_loop m repos items
     = repos @ map (projr \<circ> hit_info) (take (nat m - length repos) (eligible_items items))"
proof (induction m repos items rule: search_repos_loop.induct)
  case (1 m repos)
  then show ?case by (simp add: eligible_items_def)
next
  case (2 m repos e rest)
  then show ?case by (simp add: eligible_items_def hit_info_def)
next
  case (3 m repos repo rest)
  show ?case
  proof (cases "m \<le> int (length repos)")
    case True
    then have "nat m - length repos = 0" by simp
    with True show ?thesis by simp
  next
    case False
    then obtain k where k: "nat m - length repos = Suc k" by (cases "nat m - length repos") auto
    show ?thesis
    proof (cases "repo_info_of repo")
      case (Inl e)
      with False show ?thesis by (simp add: eligible_items_def hit_info_def)
    next
      case (Inr info)
      from k have k': "nat m - length (repos @ [info]) = k" by simp
      from "3.IH" [OF False Inr] k'
      have "search_repos_loop m (repos @ [info]) rest
          = (repos @ [info]) @ map (projr \<circ> hit_info) (take k (eligible_items rest))"
        by simp
      with False Inr k show ?thesis by (simp add: eligible_items_def hit_info_def)
    qed
  qed
qed

lemma java_version_loop_eligible:
  "fst (java_version_loop lw v m (all_repos, seen) items)
     = all_repos @ map (projr \<circ> java_repo_info_of lw v)
         (take (nat m - length all_repos) (fst (eligible_in lw v seen items)))
   \<and> (int (length (fst (java_version_loop lw v m (all_repos, seen) items))) < m \<longrightarrow>
        snd (java_version_loop lw v m (all_repos, seen) items) = snd (eligible_in lw v seen items))"
proof (induction items arbitrary: all_repos seen)
  case Nil
  then show ?case by simp
next
  case (Cons item rest)
  show ?case
  proof (cases item)
    case (Inl e)
    then show ?thesis by simp
  next
    case (Inr h)
    show ?thesis
    proof (cases "m \<le> int (length all_repos)")
      case True
      then have "nat m - length all_repos = 0" by simp
      with True Inr show ?thesis by simp
    next
      case False
      then obtain k where k: "nat m - length all_repos = Suc k"
        by (cases "nat m - length all_repos") auto
      show ?thesis
      proof (cases "repo_full_name h \<in> seen")
        case True
        with False Inr Cons.IH [of all_repos seen] show ?thesis by simp
      next
        case new: False
        show ?thesis
        proof (cases "java_repo_info_of lw v h")
          case (Inl e)
          with False new Inr show ?thesis by simp
        next
          case info: (Inr info)
          from k have k': "nat m - length (all_repos @ [info]) = k" by simp
          note IH = Cons.IH [of "all_repos @ [info]" "insert (repo_full_name h) seen"]
          from False new Inr info k k' IH show ?thesis by simp
        qed
      qed
    qed
  qed
qed

lemma eligible_in_facts:
  "seen \<subseteq> snd (eligible_in lw v seen items)
   \<and> repo_full_name ` set (fst (eligible_in lw v seen items)) \<subseteq> snd (eligible_in lw v seen items) - seen
   \<and> distinct (map repo_full_name (fst (eligible_in lw v seen items)))
   \<and> (\<forall>h \<in> set (fst (eligible_in lw v seen items)). \<not> isl (java_repo_info_of lw v h))"
proof (induction lw v seen items rule: eligible_in.induct)
  case (1 lw v seen)
  then show ?case by simp
next
  case (2 lw v seen e rest)
  then show ?case by simp
next
  case (3 lw v seen h rest)
  show ?case
  proof (cases "repo_full_name h \<in> seen")
    case True
    with 3 show ?thesis by simp
  next
    case new: False
    show ?thesis
    proof (cases "isl (java_repo_info_of lw v h)")
      case True
      with new show ?thesis by auto
    next
      case False
      with new "3.IH"(2) have IH: "insert (repo_full_name h) seen
            \<subseteq> snd (eligible_in lw v (insert (repo_full_name h) seen) rest)
          \<and> repo_full_name ` set (fst (eligible_in lw v (insert (repo_full_name h) seen) rest))
            \<subseteq> snd (eligible_in lw v (insert (repo_full_name h) seen) rest)
               - insert (repo_full_name h) seen
          \<and> distinct (map repo_full_name (fst (eligible_in lw v (insert (repo_full_name h) seen) rest)))
          \<and> (\<forall>h' \<in> set (fst (eligible_in lw v (insert (repo_full_name h) seen) rest)).
                \<not> isl (java_repo_info_of lw v h'))"
        by simp
      with new False show ?thesis by auto
    qed
  qed
qed

lemma eligible_hits_facts:
  "repo_full_name ` set (eligible_hits lw p v seen qs) \<inter> seen = {}
   \<and> distinct (map repo_full_name (eligible_hits lw p v seen qs))
   \<and> (\<forall>h \<in> set (eligible_hits lw p v seen qs). \<not> isl (java_repo_info_of lw v h))"
proof (induction qs arbitrary: seen)
  case Nil
  then show ?case by simp
next
  case (Cons q qs)
  note a = eligible_in_facts [of seen lw v "p q"]
  note b = Cons.IH [of "snd (eligible_in lw v seen (p q))"]
  from a b show ?case by (auto simp: image_subset_iff)
qed

lemma foldl_run_query_keeps_full:
  "m \<le> int (length (fst (fst s))) \<Longrightarrow> fst (fst (foldl (run_query lw p v m) s qs)) = fst (fst s)"
proof (induction qs arbitrary: s)
  case Nil
  then show ?case by simp
next
  case (Cons q qs)
  from Cons.prems have "fst (run_query lw p v m s q) = fst s"
    by (simp add: run_query_def java_version_loop_cap)
  with Cons show ?case by simp
qed

lemma foldl_run_query_eligible:
  "fst (fst (foldl (run_query lw p v m) ((all_repos, seen), log) qs))
     = all_repos @ map (projr \<circ> java_repo_info_of lw v)
         (take (nat m - length all_repos) (eligible_hits lw p v seen qs))"
proof (induction qs arbitrary: all_repos seen log)
  case Nil
  then show ?case by simp
next
  case (Cons q qs)
  let ?E = "fst (eligible_in lw v seen (p q))" and ?S = "snd (eligible_in lw v seen (p q))"
  let ?k = "nat m - length all_repos"
  let ?st = "java_version_loop lw v m (all_repos, seen) (p q)"
  note inner = java_version_loop_eligible [of lw v m all_repos seen "p q"]
  from inner have all1: "fst ?st = all_repos @ map (projr \<circ> java_repo_info_of lw v) (take ?k ?E)"
    by simp
  have step: "foldl (run_query lw p v m) ((all_repos, seen), log) (q # qs)
      = foldl (run_query lw p v m) ((fst ?st, snd ?st), log @ [q]) qs"
    by (simp add: run_query_def)
  show ?case
  proof (cases "int (length (fst ?st)) < m")
    case True
    with inner have seen1: "snd ?st = ?S" by simp
    from True all1 have short: "length ?E < ?k" by (simp add: min_def split: if_splits)
    then have all1': "fst ?st = all_repos @ map (projr \<circ> java_repo_info_of lw v) ?E"
      using all1 by simp
    have "fst (fst (foldl (run_query lw p v m) ((fst ?st, snd ?st), log @ [q]) qs))
        = fst ?st @ map (projr \<circ> java_repo_info_of lw v)
            (take (nat m - length (fst ?st)) (eligible_hits lw p v (snd ?st) qs))"
      by (rule Cons.IH)
    also have "nat m - length (fst ?st) = ?k - length ?E" using all1' by simp
    finally show ?thesis using step seen1 all1' short by simp
  next
    case False
    then have full: "m \<le> int (length (fst (fst ((fst ?st, snd ?st), log @ [q]))))" by simp
    have "fst (fst (foldl (run_query lw p v m) ((fst ?st, snd ?st), log @ [q]) qs)) = fst ?st"
      using foldl_run_query_keeps_full [OF full] by simp
    moreover from False all1 have "?k \<le> length ?E" by (simp add: min_def split: if_splits)
    ultimately show ?thesis using step all1 by simp
  qed
qed

lemma merged_repos_eligible:
  "merged_repos lw p v bt st m
     = map (projr \<circ> java_repo_info_of lw v)
         (take (nat m) (eligible_hits lw p v {} (version_queries v bt st)))"
  using foldl_run_query_eligible [of lw p v m "[]" "{}" "[]" "version_queries v bt st"]
  by (simp add: merged_repos_def run_queries_def)

text \<open>
  C2, amended. With a cap \<open>m > 0\<close>, both searches return at most \<open>m\<close> records.
  \<open>search_repos\<close> returns exactly \<open>m\<close> if and only if the stream has at least \<open>m\<close> items
  before the first one that raises or cannot become a record. \<open>search_java_version_repos\<close>
  returns exactly \<open>m\<close> if and only if the streams of its queries hold at least \<open>m\<close>
  eligible hits: hits of a new name that become a record and stand before the point where
  their stream ends. The eligible hits have different names, and each becomes a record.
\<close>

theorem result_cap:
  "(0 < m \<longrightarrow>
      length (fst (search_repos p query language_arg topics_arg stars_arg forks_arg m)) \<le> nat m
    \<and> length (fst (search_java_version_repos lw p v bt st m)) \<le> nat m
    \<and> (length (fst (search_repos p query language_arg topics_arg stars_arg forks_arg m)) = nat m
         \<longleftrightarrow> nat m \<le> length (eligible_items
                               (p (search_query query language_arg topics_arg stars_arg forks_arg))))
    \<and> (length (fst (search_java_version_repos lw p v bt st m)) = nat m
         \<longleftrightarrow> nat m \<le> length (eligible_hits lw p v {} (version_queries v bt st))))
   \<and> distinct (map repo_full_name (eligible_hits lw p v {} (version_queries v bt st)))
   \<and> (\<forall>h \<in> set (eligible_hits lw p v {} (version_queries v bt st)).
         \<not> isl (java_repo_info_of lw v h))"
proof -
  let ?stream = "p (search_query query language_arg topics_arg stars_arg forks_arg)"
  let ?hits = "eligible_hits lw p v {} (version_queries v bt st)"
  have "search_repos_loop m [] ?stream
      = [] @ map (projr \<circ> hit_info) (take (nat m - length ([] :: repo_info list)) (eligible_items ?stream))"
    by (rule search_repos_loop_eligible)
  then have g: "length (fst (search_repos p query language_arg topics_arg stars_arg forks_arg m))
      = min (nat m) (length (eligible_items ?stream))"
    by (simp add: search_repos_def Let_def min_def)
  have j: "length (fst (search_java_version_repos lw p v bt st m)) = min (nat m) (length ?hits)"
    by (simp add: search_java_version_repos_sorted length_sort_reverse merged_repos_eligible min_def)
  note f = eligible_hits_facts [of lw p v "{}" "version_queries v bt st"]
  from g j f show ?thesis by auto
qed

theorem result_cap_witness:
  "(0::int) < 5
   \<and> length (eligible_items (six_search (search_query ''parser'' None None None None))) = 6
   \<and> length (fst (search_repos six_search ''parser'' None None None None 5)) = nat 5
   \<and> map repo_full_name (eligible_hits lower_ascii six_search ''8'' {} (version_queries ''8'' [] None))
       = [''acme/r1'', ''acme/r2'', ''acme/r3'', ''acme/r4'', ''acme/r5'', ''acme/r6'']
   \<and> length (fst (search_java_version_repos lower_ascii six_search ''8'' [] None 5)) = nat 5"
proof -
  have h1: "length (eligible_items (six_search (search_query ''parser'' None None None None))) = 6"
    by code_simp
  have h2: "map repo_full_name (eligible_hits lower_ascii six_search ''8'' {} (version_queries ''8'' [] None))
       = [''acme/r1'', ''acme/r2'', ''acme/r3'', ''acme/r4'', ''acme/r5'', ''acme/r6'']"
    by code_simp
  from arg_cong [OF h2, of length]
  have h2': "length (eligible_hits lower_ascii six_search ''8'' {} (version_queries ''8'' [] None)) = 6"
    by simp
  note t = result_cap [of 5 six_search "''parser''" None None None None lower_ascii "''8''" "[]" None]
  from t h1 have c1: "length (fst (search_repos six_search ''parser'' None None None None 5)) = nat 5"
    by simp
  from t h2' have c2: "length (fst (search_java_version_repos lower_ascii six_search ''8'' [] None 5)) = nat 5"
    by simp
  from h1 h2 c1 c2 show ?thesis by simp
qed

text \<open>
  As first stated, with exactly \<open>m\<close> records whenever the stream holds \<open>m\<close> hits that can
  become records, the property fails: a hit whose topics cannot be fetched ends the loop of
  \<open>search_repos\<close>, and ends each query of \<open>search_java_version_repos\<close>, before the six
  hits behind it are reached.
\<close>

theorem result_cap_counterexample:
  "(0::int) < 5
   \<and> map repo_full_name
        (map projr (filter (\<lambda>item. \<not> isl (hit_info item))
           (failing_first_search (search_query ''parser'' None None None None))))
       = [''acme/r1'', ''acme/r2'', ''acme/r3'', ''acme/r4'', ''acme/r5'', ''acme/r6'']
   \<and> length (fst (search_repos failing_first_search ''parser'' None None None None 5)) = 0
   \<and> remdups (map repo_full_name
        (filter (\<lambda>h. \<not> isl (java_repo_info_of lower_ascii ''11'' h))
           (supplied_hits failing_first_search (version_queries ''11'' [] None))))
       = [''acme/r1'', ''acme/r2'', ''acme/r3'', ''acme/r4'', ''acme/r5'', ''acme/r6'']
   \<and> length (fst (search_java_version_repos lower_ascii failing_first_search ''11'' [] None 5)) = 0"
  by code_simp

text \<open>
  C4. The list that \<open>search_java_version_repos\<close> returns holds the records gathered by the
  loop, each as often as gathered, in descending order of the pair of score and stars; the
  records of one score and one star count stand in it in the order in which the loop
  gathered them. The list that \<open>search_repos\<close> returns is, item by item, what the loop body
  makes of the first items of the provider's stream, in the stream's order.
\<close>

theorem final_ordering:
  "mset (fst (search_java_version_repos lw p v bt st m)) = mset (merged_repos lw p v bt st m)
   \<and> sorted_wrt (\<lambda>a b. version_score b < version_score a
                      \<or> version_score b = version_score a \<and> stars b \<le> stars a)
       (fst (search_java_version_repos lw p v bt st m))
   \<and> (\<forall>score n.
         filter (\<lambda>r. version_score r = score \<and> stars r = n) (fst (search_java_version_repos lw p v bt st m))
       = filter (\<lambda>r. version_score r = score \<and> stars r = n) (merged_repos lw p v bt st m))
   \<and> map Inr (fst (search_repos p query language_arg topics_arg stars_arg forks_arg max_results))
       = map hit_info
           (take (length (fst (search_repos p query language_arg topics_arg stars_arg forks_arg max_results)))
              (p (search_query query language_arg topics_arg stars_arg forks_arg)))"
proof (intro conjI allI)
  show "mset (fst (search_java_version_repos lw p v bt st m)) = mset (merged_repos lw p v bt st m)"
    by (simp add: search_java_version_repos_sorted mset_sort_reverse)
next
  have "sorted_wrt (\<lambda>a b. sort_key_of b \<le> sort_key_of a)
      (sort_reverse sort_key_of (merged_repos lw p v bt st m))"
    by (rule sorted_sort_reverse)
  moreover have "sort_key_of b \<le> sort_key_of a \<Longrightarrow>
      version_score b < version_score a \<or> version_score b = version_score a \<and> stars b \<le> stars a"
    for a b :: java_repo_info
    by (auto simp: sort_key_of_def)
  ultimately show "sorted_wrt (\<lambda>a b. version_score b < version_score a
                      \<or> version_score b = version_score a \<and> stars b \<le> stars a)
       (fst (search_java_version_repos lw p v bt st m))"
    unfolding search_java_version_repos_sorted by (rule sorted_wrt_mono_rel [rotated]) blast
next
  fix score n
  have "filter (\<lambda>r. sort_key_of r = (score, n)) (sort_reverse sort_key_of (merged_repos lw p v bt st m))
      = filter (\<lambda>r. sort_key_of r = (score, n)) (merged_repos lw p v bt st m)"
    by (rule sort_reverse_stable)
  then show "filter (\<lambda>r. version_score r = score \<and> stars r = n) (fst (search_java_version_repos lw p v bt st m))
       = filter (\<lambda>r. version_score r = score \<and> stars r = n) (merged_repos lw p v bt st m)"
    by (simp add: search_java_version_repos_sorted sort_key_of_def)
next
  let ?stream = "p (search_query query language_arg topics_arg stars_arg forks_arg)"
  obtain ys where "search_repos_loop max_results [] ?stream = [] @ ys"
    "map Inr ys = map hit_info (take (length ys) ?stream)"
    using search_repos_loop_prefix [of max_results "[]" ?stream] by blast
  then show "map Inr (fst (search_repos p query language_arg topics_arg stars_arg forks_arg max_results))
       = map hit_info
           (take (length (fst (search_repos p query language_arg topics_arg stars_arg forks_arg max_results)))
              ?stream)"
    by (simp add: search_repos_def Let_def)
qed

theorem final_ordering_witness:
  "map (\<lambda>r. (name r, version_score r, stars r)) (merged_repos lower_ascii example_search ''8'' [] None 10)
     = [(''acme/alpha'', 3, 10), (''acme/beta'', 5, 50), (''acme/gamma'', 3, 10), (''acme/delta'', 0, 70)]
   \<and> map (\<lambda>r. (name r, version_score r, stars r))
        (fst (search_java_version_repos lower_ascii example_search ''8'' [] None 10))
     = [(''acme/beta'', 5, 50), (''acme/alpha'', 3, 10), (''acme/gamma'', 3, 10), (''acme/delta'', 0, 70)]
   \<and> mset (fst (search_java_version_repos lower_ascii example_search ''8'' [] None 10))
       = mset (merged_repos lower_ascii example_search ''8'' [] None 10)
   \<and> map name (fst (search_repos example_search ''parser'' None None None None 10))
       = [''acme/alpha'', ''acme/beta'', ''acme/alpha'', ''acme/gamma'', ''acme/delta'']"
proof -
  have merged: "map (\<lambda>r. (name r, version_score r, stars r)) (merged_repos lower_ascii example_search ''8'' [] None 10)
     = [(''acme/alpha'', 3, 10), (''acme/beta'', 5, 50), (''acme/gamma'', 3, 10), (''acme/delta'', 0, 70)]"
    by code_simp
  have sorted: "map (\<lambda>r. (name r, version_score r, stars r))
        (fst (search_java_version_repos lower_ascii example_search ''8'' [] None 10))
     = [(''acme/beta'', 5, 50), (''acme/alpha'', 3, 10), (''acme/gamma'', 3, 10), (''acme/delta'', 0, 70)]"
    by code_simp
  have generic: "map name (fst (search_repos example_search ''parser'' None None None None 10))
       = [''acme/alpha'', ''acme/beta'', ''acme/alpha'', ''acme/gamma'', ''acme/delta'']"
    by code_simp
  have "mset (fst (search_java_version_repos lower_ascii example_search ''8'' [] None 10))
       = mset (merged_repos lower_ascii example_search ''8'' [] None 10)"
    using final_ordering [of lower_ascii example_search "''8''" "[]" None 10] by blast
  with merged sorted generic show ?thesis by blast
qed

text \<open>
  C10. \<open>search_repos\<close> drops no hit for its name: when each of the first \<open>max_results\<close>
  items of the stream becomes a record, two hits of the same name at two places among them
  are both in the list returned, each at its place and each as its own record.
\<close>

theorem search_repos_keeps_duplicates:
  assumes "p (search_query query language_arg topics_arg stars_arg forks_arg) = stream"
    and "\<forall>item \<in> set (take (nat max_results) stream). \<not> isl (hit_info item)"
    and "i < j" and "j < nat max_results" and "j < length stream"
    and "stream ! i = Inr a" and "stream ! j = Inr b"
    and "repo_full_name a = repo_full_name b"
  shows "j < length (fst (search_repos p query language_arg topics_arg stars_arg forks_arg max_results))
    \<and> Inr (fst (search_repos p query language_arg topics_arg stars_arg forks_arg max_results) ! i)
        = repo_info_of a
    \<and> Inr (fst (search_repos p query language_arg topics_arg stars_arg forks_arg max_results) ! j)
        = repo_info_of b
    \<and> name (fst (search_repos p query language_arg topics_arg stars_arg forks_arg max_results) ! i)
        = name (fst (search_repos p query language_arg topics_arg stars_arg forks_arg max_results) ! j)"
proof -
  let ?out = "fst (search_repos p query language_arg topics_arg stars_arg forks_arg max_results)"
  from assms(2) have "\<forall>item \<in> set (take (nat max_results - length ([] :: repo_info list)) stream).
      \<not> isl (hit_info item)"
    by simp
  then have "search_repos_loop max_results [] stream
      = [] @ map (projr \<circ> hit_info) (take (nat max_results - length ([] :: repo_info list)) stream)"
    by (rule search_repos_loop_good)
  with assms(1) have out: "?out = map (projr \<circ> hit_info) (take (nat max_results) stream)"
    by (simp add: search_repos_def Let_def)
  from assms have len: "j < length ?out" and i: "i < length ?out" by (simp_all add: out)
  from assms have "stream ! i \<in> set (take (nat max_results) stream)"
    and "stream ! j \<in> set (take (nat max_results) stream)"
    by (auto simp: in_set_conv_nth intro: exI [of _ i] exI [of _ j])
  with assms have ok: "\<not> isl (repo_info_of a)" "\<not> isl (repo_info_of b)"
    by (auto simp: hit_info_def)
  from assms out have "?out ! i = projr (repo_info_of a)" "?out ! j = projr (repo_info_of b)"
    by (simp_all add: hit_info_def)
  with ok have a: "Inr (?out ! i) = repo_info_of a" and b: "Inr (?out ! j) = repo_info_of b"
    by (cases "repo_info_of a"; cases "repo_info_of b"; simp)+
  from a have "name (?out ! i) = repo_full_name a" by (intro repo_info_of_name) simp
  moreover from b have "name (?out ! j) = repo_full_name b" by (intro repo_info_of_name) simp
  ultimately show ?thesis using len a b assms by simp
qed

theorem search_repos_keeps_duplicates_witness:
  "list_all (\<lambda>item. \<not> isl (hit_info item))
       (take (nat 10) (example_search (search_query ''parser'' None None None None)))
   \<and> (0::nat) < 2 \<and> 2 < nat 10
   \<and> 2 < length (example_search (search_query ''parser'' None None None None))
   \<and> example_search (search_query ''parser'' None None None None) ! 0
       = Inr (hit ''acme/alpha'' ''Java 8 app'' 10 [])
   \<and> example_search (search_query ''parser'' None None None None) ! 2
       = Inr (hit ''acme/alpha'' ''Another description'' 99 [])
   \<and> repo_full_name (hit ''acme/alpha'' ''Java 8 app'' 10 [])
       = repo_full_name (hit ''acme/alpha'' ''Another description'' 99 [])
   \<and> 2 < length (fst (search_repos example_search ''parser'' None None None None 10))
   \<and> Inr (fst (search_repos example_search ''parser'' None None None None 10) ! 0)
       = repo_info_of (hit ''acme/alpha'' ''Java 8 app'' 10 [])
   \<and> Inr (fst (search_repos example_search ''parser'' None None None None 10) ! 2)
       = repo_info_of (hit ''acme/alpha'' ''Another description'' 99 [])
   \<and> name (fst (search_repos example_search ''parser'' None None None None 10) ! 0)
       = name (fst (search_repos example_search ''parser'' None None None None 10) ! 2)"
proof -
  let ?stream = "example_search (search_query ''parser'' None None None None)"
  have good: "list_all (\<lambda>item. \<not> isl (hit_info item)) (take (nat 10) ?stream)"
    by code_simp
  then have good': "\<forall>item \<in> set (take (nat 10) ?stream). \<not> isl (hit_info item)"
    by (simp add: list_all_iff)
  have len: "2 < length ?stream" by (simp add: example_search_def)
  have a: "?stream ! 0 = Inr (hit ''acme/alpha'' ''Java 8 app'' 10 [])"
    by (simp add: example_search_def)
  have b: "?stream ! 2 = Inr (hit ''acme/alpha'' ''Another description'' 99 [])"
    by (simp add: example_search_def)
  have same: "repo_full_name (hit ''acme/alpha'' ''Java 8 app'' 10 [])
       = repo_full_name (hit ''acme/alpha'' ''Another description'' 99 [])"
    by (simp add: hit_def)
  have i: "(0::nat) < 2" and j: "2 < nat 10" by simp_all
  note t = search_repos_keeps_duplicates [where p = example_search and query = "''parser''"
      and language_arg = None and topics_arg = None and stars_arg = None and forks_arg = None,
      OF refl good' i j len a b same]
  from good i j len a b same t show ?thesis by blast
qed

text \<open>
  C8. Let the lookup \<open>l\<close> (contributor count, commit count, license or last commit) raise
  for a hit: the record built from the hit is the one built otherwise, with the
  placeholder of \<open>l\<close> in the fields of \<open>l\<close> and every other field as it was, and the hit
  becomes a record exactly when it did before. Let \<open>l\<close> raise for the hits named in a set:
  the list that either search returns is the list returned otherwise, with the placeholder
  of \<open>l\<close> in the records of these names and every other record unchanged.
\<close>

theorem enrichment_fault_tolerant:
  "repo_info_of (fail_lookup l e r) = map_sum id (placeholder l) (repo_info_of r)
   \<and> java_repo_info_of lw v (fail_lookup l e r) = map_sum id (placeholder l) (java_repo_info_of lw v r)
   \<and> fst (search_repos (\<lambda>q. failing_for l e N (p q)) query language_arg topics_arg stars_arg forks_arg m)
       = degraded l N (fst (search_repos p query language_arg topics_arg stars_arg forks_arg m))
   \<and> fst (search_java_version_repos lw (\<lambda>q. failing_for l e N (p q)) v bt st m)
       = degraded l N (fst (search_java_version_repos lw p v bt st m))"
proof (intro conjI)
  show "repo_info_of (fail_lookup l e r) = map_sum id (placeholder l) (repo_info_of r)"
    by (rule repo_info_of_fail_lookup)
next
  show "java_repo_info_of lw v (fail_lookup l e r) = map_sum id (placeholder l) (java_repo_info_of lw v r)"
    by (rule java_repo_info_of_fail_lookup)
next
  have "search_repos_loop m (degraded l N [])
          (failing_for l e N (p (search_query query language_arg topics_arg stars_arg forks_arg)))
      = degraded l N (search_repos_loop m []
          (p (search_query query language_arg topics_arg stars_arg forks_arg)))"
    by (rule search_repos_loop_failing)
  then show "fst (search_repos (\<lambda>q. failing_for l e N (p q)) query language_arg topics_arg stars_arg forks_arg m)
       = degraded l N (fst (search_repos p query language_arg topics_arg stars_arg forks_arg m))"
    by (simp add: search_repos_def Let_def degraded_def)
next
  show "fst (search_java_version_repos lw (\<lambda>q. failing_for l e N (p q)) v bt st m)
       = degraded l N (fst (search_java_version_repos lw p v bt st m))"
    by (simp add: search_java_version_repos_sorted merged_repos_failing sort_reverse_degraded)
qed

theorem enrichment_fault_tolerant_witness:
  "map (\<lambda>r. (name r, contributors r, commits r, license r))
       (fst (search_repos example_search ''parser'' None None None None 2))
     = [(''acme/alpha'', 4, 250, ''MIT License''), (''acme/beta'', 4, 250, ''MIT License'')]
   \<and> map (\<lambda>r. (name r, contributors r, commits r, license r))
       (fst (search_repos (\<lambda>q. failing_for Contributors ProviderError {''acme/beta''} (example_search q))
              ''parser'' None None None None 2))
     = [(''acme/alpha'', 4, 250, ''MIT License''), (''acme/beta'', 0, 250, ''MIT License'')]
   \<and> fst (search_repos (\<lambda>q. failing_for Contributors ProviderError {''acme/beta''} (example_search q))
            ''parser'' None None None None 2)
     = degraded Contributors {''acme/beta''}
         (fst (search_repos example_search ''parser'' None None None None 2))
   \<and> map (\<lambda>r. (name r, last_commit_date r, last_commit_author r, last_commit_message r))
       (fst (search_java_version_repos lower_ascii
              (\<lambda>q. failing_for Last_commit ProviderError {''acme/beta''} (example_search q))
              ''8'' [] None 2))
     = [(''acme/beta'', ''Unknown'', ''Unknown'', ''Unable to fetch commit info''),
        (''acme/alpha'', ''2026-10-01 12:00'', ''octo'', ''Fix build'')]
   \<and> fst (search_java_version_repos lower_ascii
            (\<lambda>q. failing_for Last_commit ProviderError {''acme/beta''} (example_search q))
            ''8'' [] None 2)
     = degraded Last_commit {''acme/beta''}
         (fst (search_java_version_repos lower_ascii example_search ''8'' [] None 2))"
proof -
  have before: "map (\<lambda>r. (name r, contributors r, commits r, license r))
       (fst (search_repos example_search ''parser'' None None None None 2))
     = [(''acme/alpha'', 4, 250, ''MIT License''), (''acme/beta'', 4, 250, ''MIT License'')]"
    by code_simp
  have after: "map (\<lambda>r. (name r, contributors r, commits r, license r))
       (fst (search_repos (\<lambda>q. failing_for Contributors ProviderError {''acme/beta''} (example_search q))
              ''parser'' None None None None 2))
     = [(''acme/alpha'', 4, 250, ''MIT License''), (''acme/beta'', 0, 250, ''MIT License'')]"
    by code_simp
  have java: "map (\<lambda>r. (name r, last_commit_date r, last_commit_author r, last_commit_message r))
       (fst (search_java_version_repos lower_ascii
              (\<lambda>q. failing_for Last_commit ProviderError {''acme/beta''} (example_search q))
              ''8'' [] None 2))
     = [(''acme/beta'', ''Unknown'', ''Unknown'', ''Unable to fetch commit info''),
        (''acme/alpha'', ''2026-10-01 12:00'', ''octo'', ''Fix build'')]"
    by code_simp
  note t1 = enrichment_fault_tolerant [of Contributors ProviderError example_repo lower_ascii "''8''"
      "{''acme/beta''}" example_search "''parser''" None None None None 2 "[]" None]
  note t2 = enrichment_fault_tolerant [of Last_commit ProviderError example_repo lower_ascii "''8''"
      "{''acme/beta''}" example_search "''parser''" None None None None 2 "[]" None]
  from before after java t1 t2 show ?thesis by blast
qed

section \<open>The marker files of \<open>analyze_repo\<close>\<close>

lemma frameworks_of_absent:
  "repo_get_contents repo ''package.json'' = Inl e \<Longrightarrow> frameworks_of repo = Inr []"
  by (simp add: frameworks_of_def check_file_exists_def)

lemma frameworks_of_unreadable:
  "repo_get_contents repo ''package.json'' = Inr (Inl e) \<Longrightarrow> frameworks_of repo = Inr []"
  by (simp add: frameworks_of_def check_file_exists_def get_file_content_def)

lemma frameworks_of_dependencies:
  assumes "repo_get_contents repo ''package.json'' = Inr (Inr package_json)"
    and "sublist ''dependencies'' package_json"
  shows "frameworks_of repo = Inl TypeError"
proof -
  from assms(2) have "package_json \<noteq> []" by auto
  with assms show ?thesis
    by (simp add: frameworks_of_def check_file_exists_def get_file_content_def str_getitem_def)
qed

lemma analyze_repo_dependencies:
  assumes "repo_get_contents repo ''package.json'' = Inr (Inr package_json)"
    and "sublist ''dependencies'' package_json"
  shows "analyze_repo (\<lambda>full_name. Inr repo) repo_url = None"
  using frameworks_of_dependencies [OF assms]
  by (simp add: analyze_repo_def analyze_repo_try_def Let_def)

lemma analyze_repo_no_marker_files:
  assumes "analyze_repo_try get_repo repo_url = Inr a"
    and "\<And>full_name repo. get_repo full_name = Inr repo \<Longrightarrow>
           repo_get_contents repo ''pom.xml'' = Inl ProviderError
           \<and> repo_get_contents repo ''build.xml'' = Inl ProviderError
           \<and> repo_get_contents repo ''package.json'' = Inl ProviderError"
  shows "build_tools a = [] \<and> frameworks a = []"
  using assms
  by (auto simp: analyze_repo_try_def Let_def check_file_exists_def frameworks_of_def
      split: if_splits sum.splits)

lemma analyze_repo_example:
  "analyze_repo (\<lambda>full_name. if full_name = ''ownerX/repoY'' then Inr example_repo else Inl ProviderError)
     ''https://host/ownerX/repoY''
   = Some \<lparr> analysis_name = ''octo/demo'', analysis_url = ''https://host/octo/demo'',
            build_tools = [], frameworks = [], analysis_language = Some ''Java'',
            analysis_topics = [''Maven''] \<rparr>"
  by code_simp

text \<open>
  C9. A \<open>package.json\<close> that is found and read, and whose text holds the word
  \<open>dependencies\<close>, ends the analysis: \<open>_get_file_content\<close> hands back the text, the
  lookup of \<open>dependencies\<close> in it raises, and \<open>analyze_repo\<close> returns the empty dictionary
  instead of a result in which the file counts as absent.
\<close>

theorem analyze_repo_package_json_fatal:
  "check_file_exists angular_repo ''package.json''
   \<and> get_file_content angular_repo ''package.json''
       = Some ''{\"dependencies\": {\"@angular/core\": \"^15.0.0\"}}''
   \<and> frameworks_of angular_repo = Inl TypeError
   \<and> analyze_repo (\<lambda>full_name. Inr angular_repo) ''https://host/octo/demo'' = None"
  by code_simp

end
